theory Spec2Isabelle
  imports Main
begin

section \<open>Python strings\<close>

text \<open>
  A Python \<open>str\<close> is a sequence of Unicode code points. The tree glyphs of the input
  format lie outside ASCII, so a character is its code point and a string a list of them.
\<close>

type_synonym uchar = nat
type_synonym ustring = "nat list"

abbreviation asc :: "string \<Rightarrow> ustring" where
  "asc s \<equiv> map of_char s"

definition NL :: uchar where "NL = 10"      \<comment> \<open>\<open>"\n"\<close>\<close>
definition TAB :: uchar where "TAB = 9"     \<comment> \<open>\<open>"\t"\<close>\<close>
definition SP :: uchar where "SP = 32"      \<comment> \<open>\<open>" "\<close>\<close>
definition SLASH :: uchar where "SLASH = 47"  \<comment> \<open>\<open>"/"\<close>\<close>
definition VBAR :: uchar where "VBAR = 9474"  \<comment> \<open>U+2502, the continuation glyph\<close>
definition TEE :: uchar where "TEE = 9500"    \<comment> \<open>U+251C, connector glyph\<close>
definition ELL :: uchar where "ELL = 9492"    \<comment> \<open>U+2514, connector glyph\<close>
definition DASH :: uchar where "DASH = 9472"  \<comment> \<open>U+2500, the dash of a connector\<close>
definition DOT :: uchar where "DOT = 46"      \<comment> \<open>\<open>"."\<close>\<close>

text \<open>The characters \<open>str.strip()\<close> removes: those for which \<open>str.isspace()\<close> holds.\<close>

definition py_isspace :: "uchar \<Rightarrow> bool" where
  "py_isspace c \<longleftrightarrow>
     (9 \<le> c \<and> c \<le> 13) \<or> (28 \<le> c \<and> c \<le> 32) \<or> c = 133 \<or> c = 160 \<or> c = 5760 \<or>
     (8192 \<le> c \<and> c \<le> 8202) \<or> c = 8232 \<or> c = 8233 \<or> c = 8239 \<or> c = 8287 \<or> c = 12288"

definition strip :: "ustring \<Rightarrow> ustring" where
  "strip s = rev (dropWhile py_isspace (rev (dropWhile py_isspace s)))"

text \<open>\<open>s.split(sep)\<close> for a one-character separator: always at least one piece,
  \<open>"".split("\n") == [""]\<close>.\<close>

fun split_on :: "uchar \<Rightarrow> ustring \<Rightarrow> ustring list" where
  "split_on sep [] = [[]]"
| "split_on sep (c # cs) =
     (if c = sep then [] # split_on sep cs
      else (case split_on sep cs of [] \<Rightarrow> [[c]] | l # ls \<Rightarrow> (c # l) # ls))"

definition split_nl :: "ustring \<Rightarrow> ustring list" where
  "split_nl s = split_on NL s"

text \<open>\<open>line.replace("\t", "    ")\<close> and \<open>indent.replace("\<bar>", " ")\<close> (the vertical glyph).\<close>

definition expand_tabs :: "ustring \<Rightarrow> ustring" where
  "expand_tabs line = concat (map (\<lambda>c. if c = TAB then [SP, SP, SP, SP] else [c]) line)"

definition replace_vbar :: "ustring \<Rightarrow> ustring" where
  "replace_vbar s = map (\<lambda>c. if c = VBAR then SP else c) s"

definition endswith_slash :: "ustring \<Rightarrow> bool" where
  "endswith_slash s \<longleftrightarrow> s \<noteq> [] \<and> last s = SLASH"

definition startswith_slash :: "ustring \<Rightarrow> bool" where
  "startswith_slash s \<longleftrightarrow> s \<noteq> [] \<and> hd s = SLASH"

section \<open>The line classifier of \<open>hoc\<close>\<close>

text \<open>
  \<^verbatim>\<open>^(?P<indent>(?: {4}|\V   )*)(?:(?P<connector>[TL])-- )?(?P<name>.+)$\<close>
  (\<open>V\<close> the vertical glyph, \<open>T\<close> and \<open>L\<close> the two branch glyphs, \<open>-\<close> the dash glyph),
  applied with \<open>pattern.match\<close>. The matcher is written out with the backtracking of
  Python's \<open>re\<close>: the starred group is greedy and gives units back one at a time, the optional
  connector is tried before its omission, \<open>.\<close> matches everything but a newline, and \<open>$\<close>
  matches at the end of the string or before a final newline.
\<close>

definition is_unit :: "ustring \<Rightarrow> bool" where
  "is_unit u \<longleftrightarrow> u = [SP, SP, SP, SP] \<or> u = [VBAR, SP, SP, SP]"

fun max_units :: "ustring \<Rightarrow> nat" where
  "max_units (a # b # c # d # rest) =
     (if is_unit [a, b, c, d] then Suc (max_units rest) else 0)"
| "max_units _ = 0"

definition name_match :: "ustring \<Rightarrow> ustring option" where
  "name_match s =
     (let t = (if s \<noteq> [] \<and> last s = NL then butlast s else s)
      in if t \<noteq> [] \<and> NL \<notin> set t then Some t else None)"

definition connector_at :: "ustring \<Rightarrow> (uchar \<times> ustring) option" where
  "connector_at s =
     (case s of
        g # d1 # d2 # sp # rest \<Rightarrow>
          if (g = TEE \<or> g = ELL) \<and> d1 = DASH \<and> d2 = DASH \<and> sp = SP then Some (g, rest) else None
      | _ \<Rightarrow> None)"

definition match_tail :: "ustring \<Rightarrow> (uchar option \<times> ustring) option" where
  "match_tail s =
     (case connector_at s of
        Some (g, rest) \<Rightarrow>
          (case name_match rest of
             Some n \<Rightarrow> Some (Some g, n)
           | None \<Rightarrow> map_option (\<lambda>n. (None, n)) (name_match s))
      | None \<Rightarrow> map_option (\<lambda>n. (None, n)) (name_match s))"

fun try_units :: "nat \<Rightarrow> ustring \<Rightarrow> (ustring \<times> uchar option \<times> ustring) option" where
  "try_units 0 line = map_option (\<lambda>(c, n). ([], c, n)) (match_tail line)"
| "try_units (Suc k) line =
     (case match_tail (drop (4 * Suc k) line) of
        Some (c, n) \<Rightarrow> Some (take (4 * Suc k) line, c, n)
      | None \<Rightarrow> try_units k line)"

definition pattern_match :: "ustring \<Rightarrow> (ustring \<times> uchar option \<times> ustring) option" where
  "pattern_match line = try_units (max_units line) line"

text \<open>Lines 66 and 69 of \<open>hoc/cli.py\<close>: the depth of a matched line.\<close>

definition depth_of :: "ustring \<Rightarrow> uchar option \<Rightarrow> nat" where
  "depth_of indent connector =
     length (replace_vbar indent) div 4 + (if connector \<noteq> None then 1 else 0)"

text \<open>
  For stating what the depth counts: the number of units of a string made of whole
  indentation units only, and the text of a connector token.
\<close>

fun indent_units :: "ustring \<Rightarrow> nat option" where
  "indent_units [] = Some 0"
| "indent_units (a # b # c # d # rest) =
     (if is_unit [a, b, c, d] then map_option Suc (indent_units rest) else None)"
| "indent_units _ = None"

definition connector_token :: "uchar option \<Rightarrow> ustring" where
  "connector_token c = (case c of None \<Rightarrow> [] | Some g \<Rightarrow> [g, DASH, DASH, SP])"

section \<open>The tree of \<open>hoc\<close>\<close>

text \<open>
  \<open>TreeNode\<close> objects are mutable and shared between the ancestor stack, the list of roots
  and the \<open>children\<close> lists, so they live in a store: a list of objects, an object's address
  being its index. Allocation appends.
\<close>

record TreeNode =
  name :: ustring
  parent :: "nat option"
  children :: "nat list"
  is_dir :: bool
  full_path :: ustring

text \<open>\<open>os.path.join(a, b)\<close> of \<open>posixpath\<close>, for two arguments.\<close>

definition path_join :: "ustring \<Rightarrow> ustring \<Rightarrow> ustring" where
  "path_join a b =
     (if startswith_slash b then b
      else if a = [] \<or> endswith_slash a then a @ b
      else a @ [SLASH] @ b)"

definition add_child :: "TreeNode list \<Rightarrow> nat \<Rightarrow> nat \<Rightarrow> TreeNode list" where
  "add_child h p c = h[p := (h ! p)\<lparr>children := children (h ! p) @ [c], is_dir := True\<rparr>]"

text \<open>\<open>TreeNode.__init__\<close>: returns the store with the new object and its address.\<close>

definition new_TreeNode ::
  "TreeNode list \<Rightarrow> ustring \<Rightarrow> bool \<Rightarrow> nat option \<Rightarrow> TreeNode list \<times> nat" where
  "new_TreeNode h nm isd par =
     (let fp = (case par of None \<Rightarrow> nm | Some p \<Rightarrow> path_join (full_path (h ! p)) nm);
          node = \<lparr>name = nm, parent = par, children = [], is_dir = isd, full_path = fp\<rparr>;
          i = length h;
          h1 = h @ [node]
      in (case par of None \<Rightarrow> (h1, i) | Some p \<Rightarrow> (add_child h1 p i, i)))"

section \<open>\<open>parse_tree_structure\<close> of \<open>hoc\<close>\<close>

text \<open>
  The three \<open>ValueError\<close>s the parser raises, told apart by their message: the
  specification calls them \<open>EmptyInputError\<close>, \<open>MalformedLineError\<close> and
  \<open>InconsistentIndentationError\<close>. The last two carry the offending line.
\<close>

datatype ValueError =
    EmptyInput
  | InvalidLineFormat ustring
  | InconsistentIndentation ustring

record parse_state =
  heap :: "TreeNode list"
  node_stack :: "nat list"
  roots :: "nat list"

definition init_state :: parse_state where
  "init_state = \<lparr>heap = [], node_stack = [], roots = []\<rparr>"

text \<open>The body of the \<open>for line in lines\<close> loop.\<close>

definition process_line :: "parse_state \<Rightarrow> ustring \<Rightarrow> ValueError + parse_state" where
  "process_line st line =
     (if strip line = [] then Inr st
      else case pattern_match line of
        None \<Rightarrow> Inl (InvalidLineFormat line)
      | Some (indent, connector, nm) \<Rightarrow>
          let depth = depth_of indent connector;
              isd = endswith_slash nm
          in if depth = 0 then
               (let (h, i) = new_TreeNode (heap st) nm isd None
                in Inr \<lparr>heap = h, node_stack = [i], roots = roots st @ [i]\<rparr>)
             else if depth > length (node_stack st) then Inl (InconsistentIndentation line)
             else
               (let stk = take depth (node_stack st);
                    parent_node = last stk;
                    (h, i) = new_TreeNode (heap st) nm isd (Some parent_node)
                in Inr \<lparr>heap = h, node_stack = stk @ [i], roots = roots st\<rparr>))"

fun process_lines :: "parse_state \<Rightarrow> ustring list \<Rightarrow> ValueError + parse_state" where
  "process_lines st [] = Inr st"
| "process_lines st (l # ls) =
     (case process_line st l of Inl e \<Rightarrow> Inl e | Inr st' \<Rightarrow> process_lines st' ls)"

text \<open>The result is the list of roots, as addresses into the returned store.\<close>

definition parse_tree_structure :: "ustring \<Rightarrow> ValueError + (TreeNode list \<times> nat list)" where
  "parse_tree_structure tree_str =
     (let lines = split_nl (strip tree_str)
      in if \<not> list_ex (\<lambda>l. strip l \<noteq> []) lines then Inl EmptyInput
         else case process_lines init_state (map expand_tabs lines) of
                Inl e \<Rightarrow> Inl e
              | Inr st \<Rightarrow> Inr (heap st, roots st))"

text \<open>The first line of the stripped text, before tabs are expanded.\<close>

definition first_line :: "ustring \<Rightarrow> ustring" where
  "first_line s = hd (split_nl (strip s))"

section \<open>Well-formed stores\<close>

text \<open>
  What every store built by the parser satisfies: children are allocated after their parent
  and inside the store, a parent before its child; the stack and the roots hold addresses of
  the store.
\<close>

definition store_ok :: "TreeNode list \<Rightarrow> bool" where
  "store_ok h \<longleftrightarrow>
     list_all (\<lambda>i. list_all (\<lambda>c. i < c \<and> c < length h) (children (h ! i)) \<and>
                   (case parent (h ! i) of None \<Rightarrow> True | Some p \<Rightarrow> p < i))
              [0..<length h]"

definition state_ok :: "parse_state \<Rightarrow> bool" where
  "state_ok st \<longleftrightarrow>
     store_ok (heap st) \<and> list_all (\<lambda>i. i < length (heap st)) (node_stack st) \<and>
     list_all (\<lambda>i. i < length (heap st)) (roots st)"

text \<open>
  For stating what paths look like: a string with two separators in a row, and a store in
  which every path ends with the name of its node.
\<close>

fun doubled_sep :: "ustring \<Rightarrow> bool" where
  "doubled_sep (a # b # r) = ((a = SLASH \<and> b = SLASH) \<or> doubled_sep (b # r))"
| "doubled_sep _ = False"

definition paths_ok :: "TreeNode list \<Rightarrow> bool" where
  "paths_ok h \<longleftrightarrow> (\<forall>j<length h. \<exists>pre. full_path (h ! j) = pre @ name (h ! j))"

section \<open>The filesystem\<close>

text \<open>
  The calls the two programs make are \<open>os.makedirs(p, exist_ok=True)\<close>, \<open>open(p, "w")\<close>
  (closed at once), \<open>os.chmod\<close>, \<open>os.path.exists\<close> and \<open>os.path.isdir\<close>, on a POSIX
  platform. A filesystem maps a location (the list of names from the root directory, which
  is \<open>[]\<close>) to a directory or a regular file, each with its permission bits; a file also has
  its content. There are no symbolic links. Permission bits are recorded; they are not
  consulted when a path is walked, a directory made or a file opened, so a call that the
  system would refuse for want of permission is not among the failures below, with one
  exception: \<open>os.chmod\<close> can be refused on an entry that exists.
\<close>

datatype fs_entry = DirEntry nat | FileEntry nat ustring

type_synonym fs = "ustring list \<rightharpoonup> fs_entry"

text \<open>
  The process environment: working directory, the permission bits a new directory
  (\<open>0o777 & ~umask\<close>) and a new file (\<open>0o666 & ~umask\<close>) receive, and the changes of mode
  the system refuses (\<open>chmod_refused loc m\<close>: \<open>os.chmod\<close> to mode \<open>m\<close> of the entry at \<open>loc\<close>
  raises \<open>OSError\<close>, as it does on an entry the process does not own or on a filesystem that
  cannot store the bits).
\<close>

record os_env =
  cwd :: "ustring list"
  new_dir_mode :: nat
  new_file_mode :: nat
  chmod_refused :: "ustring list \<Rightarrow> nat \<Rightarrow> bool"

definition is_dir_at :: "fs \<Rightarrow> ustring list \<Rightarrow> bool" where
  "is_dir_at f loc = (case f loc of Some (DirEntry _) \<Rightarrow> True | _ \<Rightarrow> False)"

text \<open>
  The components of a path as the kernel walks them: empty components vanish, and a trailing
  separator asks for a directory, as a final \<open>.\<close> does.
\<close>

definition path_comps :: "ustring \<Rightarrow> ustring list" where
  "path_comps p =
     filter (\<lambda>c. c \<noteq> []) (split_on SLASH p) @ (if endswith_slash p then [[DOT]] else [])"

definition start_loc :: "os_env \<Rightarrow> ustring \<Rightarrow> ustring list" where
  "start_loc env p = (if startswith_slash p then [] else cwd env)"

text \<open>Path resolution: every component but the last is looked up in a directory.\<close>

fun walk :: "fs \<Rightarrow> ustring list \<Rightarrow> ustring list \<Rightarrow> ustring list option" where
  "walk f cur [] = (if f cur = None then None else Some cur)"
| "walk f cur (c # cs) =
     (if \<not> is_dir_at f cur then None
      else if c = [DOT] then walk f cur cs
      else if c = [DOT, DOT] then walk f (butlast cur) cs
      else walk f (cur @ [c]) cs)"

definition resolve :: "os_env \<Rightarrow> fs \<Rightarrow> ustring \<Rightarrow> ustring list option" where
  "resolve env f p = (if p = [] then None else walk f (start_loc env p) (path_comps p))"

definition os_path_exists :: "os_env \<Rightarrow> fs \<Rightarrow> ustring \<Rightarrow> bool" where
  "os_path_exists env f p \<longleftrightarrow> resolve env f p \<noteq> None"

definition os_path_isdir :: "os_env \<Rightarrow> fs \<Rightarrow> ustring \<Rightarrow> bool" where
  "os_path_isdir env f p \<longleftrightarrow> (case resolve env f p of None \<Rightarrow> False | Some loc \<Rightarrow> is_dir_at f loc)"

text \<open>
  A call returns the filesystem it leaves behind and whether it returned normally
  (\<open>False\<close>: it raised \<open>OSError\<close>); what it created before raising stays.

  \<open>os.makedirs(p, exist_ok=True)\<close> creates every missing directory along the path and
  accepts directories that exist.
\<close>

fun mkdirp :: "nat \<Rightarrow> fs \<Rightarrow> ustring list \<Rightarrow> ustring list \<Rightarrow> fs \<times> bool" where
  "mkdirp dm f cur [] = (f, is_dir_at f cur)"
| "mkdirp dm f cur (c # cs) =
     (if \<not> is_dir_at f cur then (f, False)
      else if c = [DOT] then mkdirp dm f cur cs
      else if c = [DOT, DOT] then mkdirp dm f (butlast cur) cs
      else (case f (cur @ [c]) of
              None \<Rightarrow> mkdirp dm (f(cur @ [c] \<mapsto> DirEntry dm)) (cur @ [c]) cs
            | Some _ \<Rightarrow> mkdirp dm f (cur @ [c]) cs))"

definition os_makedirs :: "os_env \<Rightarrow> fs \<Rightarrow> ustring \<Rightarrow> fs \<times> bool" where
  "os_makedirs env f p =
     (if p = [] then (f, False)
      else mkdirp (new_dir_mode env) f (start_loc env p) (path_comps p))"

text \<open>\<open>with open(p, "w"): pass\<close>: creates the file empty, or truncates it.\<close>

definition os_open_w :: "os_env \<Rightarrow> fs \<Rightarrow> ustring \<Rightarrow> fs \<times> bool" where
  "os_open_w env f p =
     (let cs = filter (\<lambda>c. c \<noteq> []) (split_on SLASH p)
      in if p = [] \<or> endswith_slash p \<or> cs = [] \<or> last cs = [DOT] \<or> last cs = [DOT, DOT]
         then (f, False)
         else (case walk f (start_loc env p) (butlast cs) of
                 None \<Rightarrow> (f, False)
               | Some d \<Rightarrow>
                   if \<not> is_dir_at f d then (f, False)
                   else (case f (d @ [last cs]) of
                           None \<Rightarrow> (f(d @ [last cs] \<mapsto> FileEntry (new_file_mode env) []), True)
                         | Some (FileEntry m _) \<Rightarrow> (f(d @ [last cs] \<mapsto> FileEntry m []), True)
                         | Some (DirEntry _) \<Rightarrow> (f, False))))"

text \<open>
  \<open>os.chmod(p, mode)\<close> sets the twelve permission bits; it raises when the path does not
  resolve and when the system refuses the change.
\<close>

definition with_mode :: "nat \<Rightarrow> fs_entry \<Rightarrow> fs_entry" where
  "with_mode m e = (case e of DirEntry _ \<Rightarrow> DirEntry (m mod 4096) | FileEntry _ c \<Rightarrow> FileEntry (m mod 4096) c)"

definition os_chmod :: "os_env \<Rightarrow> fs \<Rightarrow> ustring \<Rightarrow> nat \<Rightarrow> fs \<times> bool" where
  "os_chmod env f p m =
     (case resolve env f p of
        None \<Rightarrow> (f, False)
      | Some loc \<Rightarrow>
          (case f loc of
             None \<Rightarrow> (f, False)
           | Some e \<Rightarrow>
               if chmod_refused env loc m then (f, False)
               else (f(loc \<mapsto> with_mode m e), True)))"

text \<open>
  Neither program lets the filesystem decide what it does next, except that an exception
  ends the run. So a materializer is the list of calls it makes, in order, and
  \<open>run_ops\<close> performs them up to the first one that raises. \<open>SetPermissions\<close> is
  \<open>set_permissions\<close> of \<open>hoc\<close>, which catches the \<open>OSError\<close> of \<open>os.chmod\<close> and prints it;
  \<open>Chmod\<close> is the bare \<open>os.chmod\<close> of \<open>dircreator\<close>.
\<close>

datatype fs_op = MakeDirs ustring | OpenW ustring | SetPermissions ustring nat | Chmod ustring nat

fun do_op :: "os_env \<Rightarrow> fs \<Rightarrow> fs_op \<Rightarrow> fs \<times> bool" where
  "do_op env f (MakeDirs p) = os_makedirs env f p"
| "do_op env f (OpenW p) = os_open_w env f p"
| "do_op env f (SetPermissions p m) = (fst (os_chmod env f p m), True)"
| "do_op env f (Chmod p m) = os_chmod env f p m"

fun run_ops :: "os_env \<Rightarrow> fs \<Rightarrow> fs_op list \<Rightarrow> fs \<times> bool" where
  "run_ops env f [] = (f, True)"
| "run_ops env f (x # xs) =
     (case do_op env f x of (f', True) \<Rightarrow> run_ops env f' xs | (f', False) \<Rightarrow> (f', False))"

section \<open>The materializer of \<open>hoc\<close>\<close>

text \<open>\<open>os.path.dirname\<close> of \<open>posixpath\<close>.\<close>

definition dirname :: "ustring \<Rightarrow> ustring" where
  "dirname p =
     (let head = rev (dropWhile (\<lambda>c. c \<noteq> SLASH) (rev p))
      in if head \<noteq> [] \<and> \<not> list_all (\<lambda>c. c = SLASH) head
         then rev (dropWhile (\<lambda>c. c = SLASH) (rev head))
         else head)"

text \<open>
  \<open>create_node_structure\<close>. The recursion follows \<open>node.children\<close> through the store; a child
  is allocated after its parent, so the recursion descends only to larger addresses inside
  the store, which is all a store built by the parser holds (\<open>parse_store_ok\<close> below).
\<close>

function create_node_structure ::
  "ustring \<Rightarrow> TreeNode list \<Rightarrow> nat option \<Rightarrow> nat option \<Rightarrow> nat \<Rightarrow> fs_op list" where
  "create_node_structure base_path h dir_permissions file_permissions i =
     (let node = h ! i;
          fullp = path_join base_path (full_path node)
      in if is_dir node \<or> children node \<noteq> [] then
           [MakeDirs fullp]
           @ (case dir_permissions of None \<Rightarrow> [] | Some m \<Rightarrow> [SetPermissions fullp m])
           @ concat (map (create_node_structure base_path h dir_permissions file_permissions)
                         (filter (\<lambda>c. i < c \<and> c < length h) (children node)))
         else
           [MakeDirs (dirname fullp), OpenW fullp]
           @ (case file_permissions of None \<Rightarrow> [] | Some m \<Rightarrow> [SetPermissions fullp m]))"
  by pat_completeness auto
termination
  by (relation "measure (\<lambda>(b, h, d, f, i). length h - i)") auto

definition create_structure_from_tree ::
  "ustring \<Rightarrow> TreeNode list \<Rightarrow> nat list \<Rightarrow> nat option \<Rightarrow> nat option \<Rightarrow> fs_op list" where
  "create_structure_from_tree base_path h nodes dir_permissions file_permissions =
     concat (map (create_node_structure base_path h dir_permissions file_permissions) nodes)"

subsection \<open>The materializer, entry by entry\<close>

text \<open>A location that holds a regular file; a filesystem that only gained entries, none
  of which changed from directory to file or back.\<close>

definition is_file_at :: "fs \<Rightarrow> ustring list \<Rightarrow> bool" where
  "is_file_at f loc = (case f loc of Some (FileEntry _ _) \<Rightarrow> True | _ \<Rightarrow> False)"

definition grows :: "fs \<Rightarrow> fs \<Rightarrow> bool" where
  "grows f g \<longleftrightarrow> (\<forall>k. (is_dir_at f k \<longrightarrow> is_dir_at g k) \<and> (is_file_at f k \<longrightarrow> is_file_at g k))"









section \<open>\<open>main\<close> of \<open>hoc\<close>\<close>

text \<open>
  How a run ends: the message printed and the exit status (0 only for \<open>Created\<close>).
  The tree text comes from the file given with \<open>-f\<close> when there is one, else from the
  clipboard. The calls on the filesystem are taken to raise nothing but \<open>OSError\<close>, so
  the branch \<open>except ValueError\<close> of \<open>main\<close> (\<open>ParsingError\<close>) is entered by the parser only, and
  an error of the materializer ends in the last branch (\<open>UnexpectedError\<close>).
\<close>

datatype outcome =
    Created
  | BaseDirError
  | NotADirectory
  | ReadError
  | ParsingError ValueError
  | UnexpectedError

definition main ::
  "os_env \<Rightarrow> fs \<Rightarrow> ustring \<Rightarrow> ustring option \<Rightarrow> ustring \<Rightarrow> nat option \<Rightarrow> nat option
     \<Rightarrow> outcome \<times> fs" where
  "main env f path input_file clipboard dir_permissions file_permissions =
     (let (f1, ok1) =
            (if \<not> os_path_exists env f path then os_makedirs env f path
             else (f, True))
      in if \<not> ok1 then (BaseDirError, f1)
         else if os_path_exists env f path \<and> \<not> os_path_isdir env f path then (NotADirectory, f1)
         else
           (let tree_str = (case input_file of Some content \<Rightarrow> content | None \<Rightarrow> clipboard)
            in if strip tree_str = [] then (ReadError, f1)
               else (case parse_tree_structure tree_str of
                       Inl e \<Rightarrow> (ParsingError e, f1)
                     | Inr (h, rs) \<Rightarrow>
                         (case run_ops env f1
                                 (create_structure_from_tree path h rs dir_permissions file_permissions) of
                            (f2, True) \<Rightarrow> (Created, f2)
                          | (f2, False) \<Rightarrow> (UnexpectedError, f2)))))"

section \<open>The \<open>dircreator\<close> variant\<close>

text \<open>
  Its pattern, applied with \<open>re.match\<close> to every line but the first, requires the connector:
  \<^verbatim>\<open>^(?P<indent>(?:    |\V   )*)(?P<connector>[TL]-- )(?P<name>.+)$\<close>.
\<close>

definition dc_tail :: "ustring \<Rightarrow> (ustring \<times> ustring) option" where
  "dc_tail s =
     (case connector_at s of
        Some (g, rest) \<Rightarrow> map_option (\<lambda>n. ([g, DASH, DASH, SP], n)) (name_match rest)
      | None \<Rightarrow> None)"

fun dc_try_units :: "nat \<Rightarrow> ustring \<Rightarrow> (ustring \<times> ustring \<times> ustring) option" where
  "dc_try_units 0 line = map_option (\<lambda>(c, n). ([], c, n)) (dc_tail line)"
| "dc_try_units (Suc k) line =
     (case dc_tail (drop (4 * Suc k) line) of
        Some (c, n) \<Rightarrow> Some (take (4 * Suc k) line, c, n)
      | None \<Rightarrow> dc_try_units k line)"

definition dc_match :: "ustring \<Rightarrow> (ustring \<times> ustring \<times> ustring) option" where
  "dc_match line = dc_try_units (max_units line) line"

text \<open>Line 36 of \<open>dircreator/cli.py\<close>.\<close>

definition dc_depth :: "ustring \<Rightarrow> nat" where
  "dc_depth indent = length (replace_vbar indent) div 4 + 1"

text \<open>
  The tree is a \<open>dict\<close> from path to type, read back in insertion order: an association list
  in which assigning to a present key keeps the key's place.
\<close>

datatype item_type = Dir | File

fun dict_set :: "('k \<times> 'v) list \<Rightarrow> 'k \<Rightarrow> 'v \<Rightarrow> ('k \<times> 'v) list" where
  "dict_set [] k v = [(k, v)]"
| "dict_set ((k', v') # d) k v = (if k' = k then (k', v) # d else (k', v') # dict_set d k v)"

text \<open>\<open>os.path.join(*path_stack)\<close>; the stack is never empty where it is joined.\<close>

fun join_all :: "ustring list \<Rightarrow> ustring" where
  "join_all [] = []"
| "join_all (p # ps) = foldl path_join p ps"

record dc_state =
  tree :: "(ustring \<times> item_type) list"
  path_stack :: "ustring list"

definition dc_process_line :: "dc_state \<Rightarrow> nat \<times> ustring \<Rightarrow> dc_state" where
  "dc_process_line st il =
     (let idx = fst il; line = snd il
      in if strip line = [] then st
         else if idx = 0 then
           (let b = strip line;
                base_name = (if endswith_slash b then b else b @ [SLASH])
            in \<lparr>tree = dict_set (tree st) base_name Dir, path_stack = [base_name]\<rparr>)
         else case dc_match line of
           None \<Rightarrow> st
         | Some (indent, connector, nm0) \<Rightarrow>
             (let nm = strip nm0;
                  depth = dc_depth indent;
                  ps = take depth (path_stack st) @ [nm];
                  current_path = join_all ps;
                  isd = endswith_slash nm
              in \<lparr>tree = dict_set (tree st) current_path (if isd then Dir else File),
                  path_stack = ps\<rparr>))"

definition dc_parse_tree_structure :: "ustring \<Rightarrow> (ustring \<times> item_type) list" where
  "dc_parse_tree_structure tree_str =
     tree (foldl dc_process_line \<lparr>tree = [], path_stack = []\<rparr>
                 (enumerate 0 (split_nl (strip tree_str))))"

text \<open>\<open>os.path.splitext(p)[1]\<close>: the extension, empty when the file name is all leading dots.\<close>

definition splitext_ext :: "ustring \<Rightarrow> ustring" where
  "splitext_ext p =
     (let fname = rev (takeWhile (\<lambda>c. c \<noteq> SLASH) (rev p))
      in if DOT \<notin> set fname then []
         else (let stem = rev (tl (dropWhile (\<lambda>c. c \<noteq> DOT) (rev fname)));
                   ext = DOT # rev (takeWhile (\<lambda>c. c \<noteq> DOT) (rev fname))
               in if list_all (\<lambda>c. c = DOT) stem then [] else ext))"

text \<open>\<open>set_permissions\<close> of \<open>dircreator\<close>: fixed modes \<open>0o755\<close> and \<open>0o644\<close>.\<close>

definition dc_set_permissions :: "ustring \<Rightarrow> item_type \<Rightarrow> fs_op" where
  "dc_set_permissions fullp t =
     (if t = Dir then Chmod fullp 493
      else if splitext_ext fullp = asc ''.py'' then Chmod fullp 493
      else Chmod fullp 420)"

definition dc_create_item :: "ustring \<Rightarrow> ustring \<times> item_type \<Rightarrow> fs_op list" where
  "dc_create_item base_path kv =
     (let fullp = path_join base_path (fst kv)
      in if snd kv = Dir then [MakeDirs fullp, dc_set_permissions fullp Dir]
         else [MakeDirs (dirname fullp), OpenW fullp, dc_set_permissions fullp File])"

definition create_structure :: "ustring \<Rightarrow> (ustring \<times> item_type) list \<Rightarrow> fs_op list" where
  "create_structure base_path t = concat (map (dc_create_item base_path) t)"

text \<open>
  \<open>main\<close> of \<open>dircreator\<close>. \<open>os.makedirs(args.path)\<close> is called without \<open>exist_ok\<close> and
  outside any \<open>try\<close>, on a path that does not exist.
\<close>

definition dc_main :: "os_env \<Rightarrow> fs \<Rightarrow> ustring \<Rightarrow> ustring \<Rightarrow> outcome \<times> fs" where
  "dc_main env f path input =
     (let (f1, ok1) =
            (if \<not> os_path_exists env f path then os_makedirs env f path
             else (f, True))
      in if \<not> ok1 then (BaseDirError, f1)
         else if os_path_exists env f path \<and> \<not> os_path_isdir env f path then (NotADirectory, f1)
         else if strip input = [] then (ReadError, f1)
         else (case run_ops env f1 (create_structure path (dc_parse_tree_structure input)) of
                 (f2, True) \<Rightarrow> (Created, f2)
               | (f2, False) \<Rightarrow> (UnexpectedError, f2)))"

text \<open>
  The mode \<open>set_permissions\<close> of \<open>dircreator\<close> gives a file, and what a run of its
  materializer keeps: entries keep their kind, a directory with mode \<open>0o755\<close> keeps it, and
  an empty file that has the mode of its name stays so.
\<close>

definition dc_file_mode :: "ustring \<Rightarrow> nat" where
  "dc_file_mode p = (if splitext_ext p = asc ''.py'' then 493 else 420)"


section \<open>Example inputs\<close>

text \<open>The state of the parser of \<open>hoc\<close> after the single line \<open>root/\<close>.\<close>

definition root_only :: parse_state where
  "root_only =
     \<lparr>heap = [\<lparr>name = asc ''root/'', parent = None, children = [], is_dir = True,
               full_path = asc ''root/''\<rparr>],
      node_stack = [0], roots = [0]\<rparr>"

text \<open>The tree text of the specification's first example, and the store it parses to.\<close>

definition example_tree :: ustring where
  "example_tree =
     asc ''root/'' @ [NL] @
     [TEE, DASH, DASH, SP] @ asc ''a/'' @ [NL] @
     [VBAR, SP, SP, SP, ELL, DASH, DASH, SP] @ asc ''b.txt'' @ [NL] @
     [ELL, DASH, DASH, SP] @ asc ''c.txt''"

definition example_store :: "TreeNode list" where
  "example_store =
     [\<lparr>name = asc ''root/'', parent = None, children = [1, 3], is_dir = True,
       full_path = asc ''root/''\<rparr>,
      \<lparr>name = asc ''a/'', parent = Some 0, children = [2], is_dir = True,
       full_path = asc ''root/a/''\<rparr>,
      \<lparr>name = asc ''b.txt'', parent = Some 1, children = [], is_dir = False,
       full_path = asc ''root/a/b.txt''\<rparr>,
      \<lparr>name = asc ''c.txt'', parent = Some 0, children = [], is_dir = False,
       full_path = asc ''root/c.txt''\<rparr>]"

text \<open>
  A process environment (umask \<open>0o077\<close>, no change of mode refused) and a filesystem
  holding \<open>/home\<close>, \<open>/tmp\<close> and \<open>/tmp/x\<close>.
\<close>

definition example_env :: os_env where
  "example_env =
     \<lparr>cwd = [asc ''home''], new_dir_mode = 448, new_file_mode = 384,
      chmod_refused = (\<lambda>loc m. False)\<rparr>"

definition example_fs :: fs where
  "example_fs =
     [[] \<mapsto> DirEntry 493, [asc ''home''] \<mapsto> DirEntry 493, [asc ''tmp''] \<mapsto> DirEntry 1023,
      [asc ''tmp'', asc ''x''] \<mapsto> DirEntry 448]"

text \<open>A tree text in which the entry \<open>a\<close>, written without the marker, has a child.\<close>

definition markerless_parent :: ustring where
  "markerless_parent =
     asc ''root/'' @ [NL] @
     [TEE, DASH, DASH, SP] @ asc ''a'' @ [NL] @
     [VBAR, SP, SP, SP, ELL, DASH, DASH, SP] @ asc ''b.txt''"




section \<open>Properties\<close>

lemmas glyph_defs = NL_def TAB_def SP_def SLASH_def VBAR_def TEE_def ELL_def DASH_def DOT_def

subsection \<open>The classifier and the depth\<close>

lemma try_units_SomeD:
  "try_units k line = Some (indent, c, n) \<Longrightarrow>
     \<exists>j\<le>k. indent = take (4 * j) line \<and> match_tail (drop (4 * j) line) = Some (c, n)"
proof (induction k)
  case 0
  then show ?case by auto
next
  case (Suc k)
  show ?case
  proof (cases "match_tail (drop (4 * Suc k) line)")
    case None
    with Suc.prems have "try_units k line = Some (indent, c, n)" by simp
    from Suc.IH[OF this] obtain j where "j \<le> k" "indent = take (4 * j) line"
      "match_tail (drop (4 * j) line) = Some (c, n)" by blast
    then have "j \<le> Suc k \<and> indent = take (4 * j) line \<and> match_tail (drop (4 * j) line) = Some (c, n)"
      by simp
    then show ?thesis by blast
  next
    case (Some a)
    with Suc.prems have "indent = take (4 * Suc k) line \<and> match_tail (drop (4 * Suc k) line) = Some (c, n)"
      by (cases a) auto
    then show ?thesis by blast
  qed
qed

lemma dc_try_units_SomeD:
  "dc_try_units k line = Some (indent, c, n) \<Longrightarrow>
     \<exists>j\<le>k. indent = take (4 * j) line \<and> dc_tail (drop (4 * j) line) = Some (c, n)"
proof (induction k)
  case 0
  then show ?case by auto
next
  case (Suc k)
  show ?case
  proof (cases "dc_tail (drop (4 * Suc k) line)")
    case None
    with Suc.prems have "dc_try_units k line = Some (indent, c, n)" by simp
    from Suc.IH[OF this] obtain j where "j \<le> k" "indent = take (4 * j) line"
      "dc_tail (drop (4 * j) line) = Some (c, n)" by blast
    then have "j \<le> Suc k \<and> indent = take (4 * j) line \<and> dc_tail (drop (4 * j) line) = Some (c, n)"
      by simp
    then show ?thesis by blast
  next
    case (Some a)
    with Suc.prems have "indent = take (4 * Suc k) line \<and> dc_tail (drop (4 * Suc k) line) = Some (c, n)"
      by (cases a) auto
    then show ?thesis by blast
  qed
qed

lemma indent_units_take:
  "j \<le> max_units line \<Longrightarrow> indent_units (take (4 * j) line) = Some j"
proof (induction line arbitrary: j rule: max_units.induct)
  case (1 a b c d rest)
  show ?case
  proof (cases j)
    case 0
    then show ?thesis by simp
  next
    case (Suc i)
    with "1.prems" have u: "is_unit [a, b, c, d]" and le: "i \<le> max_units rest"
      by (auto split: if_splits)
    have e: "4 * Suc i = Suc (Suc (Suc (Suc (4 * i))))" by simp
    from "1.IH"[OF u le] u show ?thesis unfolding Suc e by simp
  qed
qed simp_all

lemma indent_units_length: "indent_units s = Some k \<Longrightarrow> length s = 4 * k"
  by (induction s arbitrary: k rule: indent_units.induct) (auto split: if_splits)

lemma name_match_SomeD:
  "name_match s = Some n \<Longrightarrow> n \<noteq> [] \<and> NL \<notin> set n \<and> (s = n \<or> s = n @ [NL])"
proof -
  assume a: "name_match s = Some n"
  show ?thesis
  proof (cases "s \<noteq> [] \<and> last s = NL")
    case True
    then have "s = butlast s @ [NL]" by (metis append_butlast_last_id)
    moreover from a True have "n = butlast s \<and> n \<noteq> [] \<and> NL \<notin> set n"
      by (auto simp: name_match_def Let_def split: if_splits)
    ultimately show ?thesis by auto
  next
    case False
    with a show ?thesis by (auto simp: name_match_def split: if_splits)
  qed
qed

lemma connector_at_SomeD:
  "connector_at s = Some (g, rest) \<Longrightarrow> (g = TEE \<or> g = ELL) \<and> s = [g, DASH, DASH, SP] @ rest"
  by (auto simp: connector_at_def split: list.splits if_splits)

lemma match_tail_SomeD:
  assumes "match_tail s = Some (c, n)"
  shows "n \<noteq> [] \<and> NL \<notin> set n \<and> (c = None \<or> c = Some TEE \<or> c = Some ELL) \<and>
         (s = connector_token c @ n \<or> s = connector_token c @ n @ [NL])"
proof (cases "connector_at s")
  case None
  with assms have "c = None" "name_match s = Some n"
    by (auto simp: match_tail_def)
  with name_match_SomeD[of s n] show ?thesis by (auto simp: connector_token_def)
next
  case (Some a)
  obtain g rest where a: "a = (g, rest)" by (cases a)
  note ca = connector_at_SomeD[OF Some[unfolded a]]
  show ?thesis
  proof (cases "name_match rest")
    case None
    with assms Some a have "c = None" "name_match s = Some n"
      by (auto simp: match_tail_def)
    with name_match_SomeD[of s n] show ?thesis by (auto simp: connector_token_def)
  next
    case (Some m)
    with assms \<open>connector_at s = Some a\<close> a have "c = Some g" "n = m"
      by (auto simp: match_tail_def)
    with name_match_SomeD[OF Some] ca show ?thesis by (auto simp: connector_token_def)
  qed
qed

lemma length_replace_vbar [simp]: "length (replace_vbar s) = length s"
  by (simp add: replace_vbar_def)

lemma pattern_match_SomeD:
  assumes "pattern_match line = Some (indent, c, n)"
  shows "\<exists>k. indent_units indent = Some k \<and> indent = take (4 * k) line \<and>
             match_tail (drop (4 * k) line) = Some (c, n)"
proof -
  from assms obtain j where j: "j \<le> max_units line" "indent = take (4 * j) line"
    "match_tail (drop (4 * j) line) = Some (c, n)"
    unfolding pattern_match_def by (blast dest: try_units_SomeD)
  from indent_units_take[OF j(1)] j show ?thesis by auto
qed

lemma dc_match_SomeD:
  assumes "dc_match line = Some (indent, c, n)"
  shows "\<exists>k. indent_units indent = Some k \<and> indent = take (4 * k) line \<and>
             dc_tail (drop (4 * k) line) = Some (c, n)"
proof -
  from assms obtain j where j: "j \<le> max_units line" "indent = take (4 * j) line"
    "dc_tail (drop (4 * j) line) = Some (c, n)"
    unfolding dc_match_def by (blast dest: dc_try_units_SomeD)
  from indent_units_take[OF j(1)] j show ?thesis by auto
qed

lemma name_match_total:
  assumes "s \<noteq> []" and "NL \<notin> set s"
  shows "name_match s = Some s"
proof -
  have "last s \<in> set s" using assms(1) by (rule last_in_set)
  with assms(2) have "last s \<noteq> NL" by auto
  with assms show ?thesis by (simp add: name_match_def)
qed

lemma match_tail_total: "s \<noteq> [] \<Longrightarrow> NL \<notin> set s \<Longrightarrow> match_tail s \<noteq> None"
  by (auto simp: match_tail_def name_match_total split: option.splits)

lemma try_units_total: "match_tail line \<noteq> None \<Longrightarrow> try_units k line \<noteq> None"
  by (induction k) (auto split: option.splits)

lemma pattern_match_total: "s \<noteq> [] \<Longrightarrow> NL \<notin> set s \<Longrightarrow> pattern_match s \<noteq> None"
  unfolding pattern_match_def by (rule try_units_total) (rule match_tail_total)

lemma pattern_match_greedy:
  assumes "NL \<notin> set line" and "drop (4 * max_units line) line \<noteq> []"
  shows "\<exists>c n. pattern_match line = Some (take (4 * max_units line) line, c, n)"
proof -
  let ?k = "max_units line"
  have "NL \<notin> set (drop (4 * ?k) line)" using assms(1) by (auto dest: in_set_dropD)
  from match_tail_total[OF assms(2) this] obtain c n where
    m: "match_tail (drop (4 * ?k) line) = Some (c, n)" by auto
  have "try_units ?k line = Some (take (4 * ?k) line, c, n)"
  proof (cases ?k)
    case 0
    with m show ?thesis by simp
  next
    case (Suc j)
    with m show ?thesis by simp
  qed
  then show ?thesis unfolding pattern_match_def by blast
qed

text \<open>
  C2. A line the classifier accepts starts with its \<open>indent\<close> group, which is made of whole
  4-column units (four spaces, or the continuation glyph and three spaces, alike), followed
  by the connector token when there is one and by the name; its depth is the number of those
  units, plus one when a connector token is present. In \<open>dircreator\<close> the connector is
  mandatory and the depth is the number of units plus one. In \<open>hoc\<close> the \<open>indent\<close> group of a
  line without newline holds all the units the line starts with, provided something follows
  them.
\<close>

theorem depth_is_units_plus_connector:
  "(pattern_match line = Some (indent, connector, nm) \<longrightarrow>
      (\<exists>k. indent_units indent = Some k \<and>
           depth_of indent connector = k + (if connector = None then 0 else 1) \<and>
           (line = indent @ connector_token connector @ nm \<or>
            line = indent @ connector_token connector @ nm @ [NL]))) \<and>
   (dc_match line = Some (indent, tok, nm) \<longrightarrow>
      (\<exists>k. indent_units indent = Some k \<and> dc_depth indent = k + 1)) \<and>
   (NL \<notin> set line \<and> drop (4 * max_units line) line \<noteq> [] \<longrightarrow>
      (\<exists>c n. pattern_match line = Some (take (4 * max_units line) line, c, n)))"
proof (intro conjI impI)
  assume "pattern_match line = Some (indent, connector, nm)"
  from pattern_match_SomeD[OF this] obtain k where k: "indent_units indent = Some k"
    "indent = take (4 * k) line" "match_tail (drop (4 * k) line) = Some (connector, nm)" by blast
  from indent_units_length[OF k(1)] have "depth_of indent connector = k + (if connector = None then 0 else 1)"
    by (simp add: depth_of_def)
  moreover from match_tail_SomeD[OF k(3)] k(2)
  have "line = indent @ connector_token connector @ nm \<or>
        line = indent @ connector_token connector @ nm @ [NL]"
    by (metis append_take_drop_id)
  ultimately show "\<exists>k. indent_units indent = Some k \<and>
           depth_of indent connector = k + (if connector = None then 0 else 1) \<and>
           (line = indent @ connector_token connector @ nm \<or>
            line = indent @ connector_token connector @ nm @ [NL])"
    using k(1) by blast
next
  assume "dc_match line = Some (indent, tok, nm)"
  from dc_match_SomeD[OF this] obtain k where k: "indent_units indent = Some k" by blast
  from indent_units_length[OF k] have "dc_depth indent = k + 1" by (simp add: dc_depth_def)
  with k show "\<exists>k. indent_units indent = Some k \<and> dc_depth indent = k + 1" by blast
next
  assume "NL \<notin> set line \<and> drop (4 * max_units line) line \<noteq> []"
  then show "\<exists>c n. pattern_match line = Some (take (4 * max_units line) line, c, n)"
    by (simp add: pattern_match_greedy)
qed

lemmas classifier_defs = pattern_match_def match_tail_def connector_at_def name_match_def
  is_unit_def dc_match_def dc_tail_def

theorem depth_is_units_plus_connector_witness:
  "pattern_match ([VBAR, SP, SP, SP, ELL, DASH, DASH, SP] @ asc ''b.txt'')
     = Some ([VBAR, SP, SP, SP], Some ELL, asc ''b.txt'') \<and>
   dc_match ([VBAR, SP, SP, SP, ELL, DASH, DASH, SP] @ asc ''b.txt'')
     = Some ([VBAR, SP, SP, SP], [ELL, DASH, DASH, SP], asc ''b.txt'') \<and>
   NL \<notin> set ([VBAR, SP, SP, SP, ELL, DASH, DASH, SP] @ asc ''b.txt'') \<and>
   drop (4 * max_units ([VBAR, SP, SP, SP, ELL, DASH, DASH, SP] @ asc ''b.txt''))
        ([VBAR, SP, SP, SP, ELL, DASH, DASH, SP] @ asc ''b.txt'') \<noteq> [] \<and>
   (\<exists>k. indent_units [VBAR, SP, SP, SP] = Some k \<and>
        depth_of [VBAR, SP, SP, SP] (Some ELL) = k + 1) \<and>
   (\<exists>k. indent_units [VBAR, SP, SP, SP] = Some k \<and> dc_depth [VBAR, SP, SP, SP] = k + 1) \<and>
   indent_units [VBAR, SP, SP, SP] = Some 1"
proof -
  let ?L = "[VBAR, SP, SP, SP, ELL, DASH, DASH, SP] @ asc ''b.txt''"
  let ?I = "[VBAR, SP, SP, SP]"
  have h1: "pattern_match ?L = Some (?I, Some ELL, asc ''b.txt'')"
    by (simp add: classifier_defs glyph_defs)
  have h2: "dc_match ?L = Some (?I, [ELL, DASH, DASH, SP], asc ''b.txt'')"
    by (simp add: classifier_defs glyph_defs)
  have h3: "NL \<notin> set ?L" by (simp add: glyph_defs)
  have h4: "drop (4 * max_units ?L) ?L \<noteq> []" by (simp add: is_unit_def glyph_defs)
  have u: "indent_units ?I = Some 1" by (simp add: is_unit_def)
  note t = depth_is_units_plus_connector
    [of ?L ?I "Some ELL" "asc ''b.txt''" "[ELL, DASH, DASH, SP]"]
  have e: "(if Some ELL = (None :: uchar option) then (0::nat) else 1) = 1" by simp
  from t h1 have r1: "\<exists>k. indent_units ?I = Some k \<and> depth_of ?I (Some ELL) = k + 1"
    unfolding e by blast
  from t h2 have r2: "\<exists>k. indent_units ?I = Some k \<and> dc_depth ?I = k + 1"
    by blast
  from t h3 h4 have "\<exists>c n. pattern_match ?L = Some (take (4 * max_units ?L) ?L, c, n)"
    by blast
  with h1 h2 h3 h4 r1 r2 u show ?thesis by blast
qed

subsection \<open>No line is rejected by \<open>hoc\<close>\<close>

lemma split_on_no_sep: "l \<in> set (split_on c s) \<Longrightarrow> c \<notin> set l"
proof (induction s arbitrary: l)
  case Nil
  then show ?case by simp
next
  case (Cons a s)
  then show ?case by (cases "split_on c s") (auto split: if_splits)
qed

lemma expand_tabs_no_NL: "NL \<notin> set l \<Longrightarrow> NL \<notin> set (expand_tabs l)"
  by (auto simp: expand_tabs_def glyph_defs split: if_splits)

lemma strip_Nil [simp]: "strip [] = []"
  by (simp add: strip_def)

lemma process_line_Invalid_iff:
  "process_line st line = Inl (InvalidLineFormat l) \<longleftrightarrow>
     l = line \<and> strip line \<noteq> [] \<and> pattern_match line = None"
  by (auto simp: process_line_def Let_def split: option.splits prod.splits if_splits)

lemma process_line_never_Invalid:
  "NL \<notin> set line \<Longrightarrow> \<not> process_line st line = Inl (InvalidLineFormat l)"
proof
  assume nl: "NL \<notin> set line" and "process_line st line = Inl (InvalidLineFormat l)"
  then have a: "strip line \<noteq> []" "pattern_match line = None"
    by (simp_all add: process_line_Invalid_iff)
  from a(1) have "line \<noteq> []" by auto
  from pattern_match_total[OF this nl] a(2) show False by simp
qed

lemma process_lines_never_Invalid:
  "\<forall>x\<in>set ls. NL \<notin> set x \<Longrightarrow> process_lines st ls \<noteq> Inl (InvalidLineFormat l)"
proof (induction ls arbitrary: st)
  case Nil
  then show ?case by simp
next
  case (Cons a ls)
  then show ?case
    using process_line_never_Invalid[of a st l] by (auto split: sum.splits)
qed

lemma parse_never_Invalid: "parse_tree_structure s \<noteq> Inl (InvalidLineFormat l)"
proof -
  have "\<forall>x\<in>set (map expand_tabs (split_nl (strip s))). NL \<notin> set x"
  proof
    fix x assume "x \<in> set (map expand_tabs (split_nl (strip s)))"
    then obtain y where y: "y \<in> set (split_on NL (strip s))" "x = expand_tabs y"
      by (auto simp: split_nl_def)
    from split_on_no_sep[OF y(1)] have "NL \<notin> set y" .
    then show "NL \<notin> set x" unfolding y(2) by (rule expand_tabs_no_NL)
  qed
  from process_lines_never_Invalid[OF this, of init_state l] show ?thesis
    by (auto simp: parse_tree_structure_def Let_def split: sum.splits)
qed

text \<open>
  C10. In \<open>hoc\<close> the pattern matches every non-empty line without a newline, hence every
  non-blank line the parser sees (the indentation group may match no unit, the name group
  any remaining text); so \<open>parse_tree_structure\<close> never raises "Invalid line format". A line
  with two stray spaces before a connector glyph is accepted: no indentation, no connector, the
  glyphs and the spaces inside the name, depth 0.
\<close>

theorem hoc_pattern_matches_every_line:
  "(line \<noteq> [] \<and> NL \<notin> set line \<longrightarrow> pattern_match line \<noteq> None) \<and>
   parse_tree_structure s \<noteq> Inl (InvalidLineFormat l) \<and>
   pattern_match (asc ''  '' @ [TEE, DASH, DASH, SP] @ asc ''foo'')
     = Some ([], None, asc ''  '' @ [TEE, DASH, DASH, SP] @ asc ''foo'') \<and>
   depth_of [] None = 0"
proof (intro conjI impI)
  assume "line \<noteq> [] \<and> NL \<notin> set line"
  then show "pattern_match line \<noteq> None" by (simp add: pattern_match_total)
next
  show "parse_tree_structure s \<noteq> Inl (InvalidLineFormat l)" by (rule parse_never_Invalid)
next
  show "pattern_match (asc ''  '' @ [TEE, DASH, DASH, SP] @ asc ''foo'')
     = Some ([], None, asc ''  '' @ [TEE, DASH, DASH, SP] @ asc ''foo'')"
    by (simp add: classifier_defs glyph_defs)
next
  show "depth_of [] None = 0" by (simp add: depth_of_def replace_vbar_def)
qed

theorem hoc_pattern_matches_every_line_witness:
  "asc ''x'' \<noteq> [] \<and> NL \<notin> set (asc ''x'') \<and> pattern_match (asc ''x'') \<noteq> None"
  using hoc_pattern_matches_every_line[of "asc ''x''"] by (simp add: glyph_defs)

subsection \<open>The store and the ancestor stack\<close>

lemma store_ok_iff:
  "store_ok h \<longleftrightarrow> (\<forall>i<length h. (\<forall>c\<in>set (children (h ! i)). i < c \<and> c < length h) \<and>
                                  (\<forall>p. parent (h ! i) = Some p \<longrightarrow> p < i))"
proof -
  have c: "\<And>x i. (case x of None \<Rightarrow> True | Some p \<Rightarrow> p < (i::nat)) \<longleftrightarrow> (\<forall>p. x = Some p \<longrightarrow> p < i)"
    by (simp split: option.split)
  have "store_ok h \<longleftrightarrow> (\<forall>i\<in>{0..<length h}.
         (\<forall>c\<in>set (children (h ! i)). i < c \<and> c < length h) \<and>
         (\<forall>p. parent (h ! i) = Some p \<longrightarrow> p < i))"
    unfolding store_ok_def list_all_iff c by simp
  also have "\<dots> \<longleftrightarrow> (\<forall>i<length h.
         (\<forall>c\<in>set (children (h ! i)). i < c \<and> c < length h) \<and>
         (\<forall>p. parent (h ! i) = Some p \<longrightarrow> p < i))"
    by (meson atLeastLessThan_iff zero_le)
  finally show ?thesis .
qed

lemma last_take_nth: "0 < d \<Longrightarrow> d \<le> length xs \<Longrightarrow> last (take d xs) = xs ! (d - 1)"
proof -
  assume a: "0 < d" "d \<le> length xs"
  then have "d - 1 < length xs" by simp
  from take_Suc_conv_app_nth[OF this] a(1) have "take d xs = take (d - 1) xs @ [xs ! (d - 1)]"
    by simp
  then show ?thesis by simp
qed

lemma process_line_cases:
  assumes "strip line \<noteq> []" and "pattern_match line = Some (indent, connector, nm)"
  shows "process_line st line =
     (if depth_of indent connector = 0 then
        Inr \<lparr>heap = heap st @ [\<lparr>name = nm, parent = None, children = [],
                                is_dir = endswith_slash nm, full_path = nm\<rparr>],
             node_stack = [length (heap st)], roots = roots st @ [length (heap st)]\<rparr>
      else if length (node_stack st) < depth_of indent connector then
        Inl (InconsistentIndentation line)
      else
        Inr \<lparr>heap = add_child
                 (heap st @ [\<lparr>name = nm,
                     parent = Some (last (take (depth_of indent connector) (node_stack st))),
                     children = [], is_dir = endswith_slash nm,
                     full_path = path_join
                       (full_path (heap st ! last (take (depth_of indent connector) (node_stack st))))
                       nm\<rparr>])
                 (last (take (depth_of indent connector) (node_stack st))) (length (heap st)),
             node_stack = take (depth_of indent connector) (node_stack st) @ [length (heap st)],
             roots = roots st\<rparr>)"
  using assms by (simp add: process_line_def new_TreeNode_def Let_def)

lemma store_ok_new_root:
  assumes "store_ok h" and "parent n = None" and "children n = []"
  shows "store_ok (h @ [n])"
  unfolding store_ok_iff
proof (intro allI impI)
  fix i assume "i < length (h @ [n])"
  then have li: "i < Suc (length h)" by simp
  show "(\<forall>c\<in>set (children ((h @ [n]) ! i)). i < c \<and> c < length (h @ [n])) \<and>
        (\<forall>p. parent ((h @ [n]) ! i) = Some p \<longrightarrow> p < i)"
  proof (cases "i < length h")
    case True
    then have e: "(h @ [n]) ! i = h ! i" by (simp add: nth_append)
    from assms(1) True have "(\<forall>c\<in>set (children (h ! i)). i < c \<and> c < length h) \<and>
        (\<forall>p. parent (h ! i) = Some p \<longrightarrow> p < i)"
      unfolding store_ok_iff by blast
    then show ?thesis unfolding e by auto
  next
    case False
    with li have "i = length h" by simp
    then have e: "(h @ [n]) ! i = n" by simp
    show ?thesis unfolding e using assms(2,3) by simp
  qed
qed

lemma store_ok_add_child:
  assumes "store_ok h" and "p < length h" and "parent n = Some p" and "children n = []"
  shows "store_ok (add_child (h @ [n]) p (length h))"
  unfolding store_ok_iff
proof (intro allI impI)
  let ?h = "add_child (h @ [n]) p (length h)"
  have len: "length ?h = Suc (length h)" by (simp add: add_child_def)
  fix i assume "i < length ?h"
  with len have li: "i < Suc (length h)" by simp
  have old: "\<And>j. j < length h \<Longrightarrow> (\<forall>c\<in>set (children (h ! j)). j < c \<and> c < length h) \<and>
        (\<forall>q. parent (h ! j) = Some q \<longrightarrow> q < j)"
    using assms(1) unfolding store_ok_iff by blast
  show "(\<forall>c\<in>set (children (?h ! i)). i < c \<and> c < length ?h) \<and>
        (\<forall>q. parent (?h ! i) = Some q \<longrightarrow> q < i)"
  proof (cases "i = length h")
    case True
    with assms(2) have e: "?h ! i = n" by (simp add: add_child_def)
    show ?thesis unfolding e using assms(2,3,4) True by simp
  next
    case False
    with li have il: "i < length h" by simp
    show ?thesis
    proof (cases "i = p")
      case True
      with assms(2) have c: "children (?h ! i) = children (h ! p) @ [length h]"
        and q: "parent (?h ! i) = parent (h ! p)"
        by (simp_all add: add_child_def nth_append)
      from old[OF assms(2)] True assms(2) show ?thesis unfolding c q len by auto
    next
      case False
      with il have e: "?h ! i = h ! i" by (simp add: add_child_def nth_append)
      from old[OF il] show ?thesis unfolding e len by auto
    qed
  qed
qed

lemma state_ok_process_line:
  assumes "state_ok st" and "process_line st line = Inr st'"
  shows "state_ok st'"
proof (cases "strip line = []")
  case True
  with assms show ?thesis by (simp add: process_line_def)
next
  case False
  with assms(2) obtain indent connector nm where m: "pattern_match line = Some (indent, connector, nm)"
    by (cases "pattern_match line") (auto simp: process_line_def)
  let ?d = "depth_of indent connector"
  note pl = process_line_cases[OF False m, of st]
  show ?thesis
  proof (cases "?d = 0")
    case True
    with pl assms(2) have st': "st' = \<lparr>heap = heap st @ [\<lparr>name = nm, parent = None, children = [],
                                is_dir = endswith_slash nm, full_path = nm\<rparr>],
             node_stack = [length (heap st)], roots = roots st @ [length (heap st)]\<rparr>" by simp
    have "store_ok (heap st')" unfolding st' using assms(1)
      by (simp add: state_ok_def store_ok_new_root)
    moreover have "list_all (\<lambda>i. i < length (heap st')) (roots st')"
      unfolding st' using assms(1) by (auto simp: state_ok_def list_all_iff less_Suc_eq)
    moreover have "list_all (\<lambda>i. i < length (heap st')) (node_stack st')"
      unfolding st' by simp
    ultimately show ?thesis by (simp add: state_ok_def)
  next
    case False
    with pl assms(2) have le: "?d \<le> length (node_stack st)" by (auto split: if_splits)
    let ?p = "last (take ?d (node_stack st))"
    from False le have "?p = node_stack st ! (?d - 1)" by (simp add: last_take_nth)
    with assms(1) False le have p: "?p < length (heap st)"
      by (auto simp: state_ok_def list_all_iff)
    from pl assms(2) False le have st': "st' = \<lparr>heap = add_child
                 (heap st @ [\<lparr>name = nm, parent = Some ?p,
                     children = [], is_dir = endswith_slash nm,
                     full_path = path_join (full_path (heap st ! ?p)) nm\<rparr>])
                 ?p (length (heap st)),
             node_stack = take ?d (node_stack st) @ [length (heap st)],
             roots = roots st\<rparr>" by simp
    have len: "length (heap st') = Suc (length (heap st))"
      unfolding st' by (simp add: add_child_def)
    from assms(1) p have "store_ok (heap st')"
      unfolding st' by (simp add: state_ok_def store_ok_add_child)
    moreover from assms(1) have "list_all (\<lambda>i. i < length (heap st')) (node_stack st')"
      unfolding len unfolding st' state_ok_def
      by (auto simp: list_all_iff less_Suc_eq dest: in_set_takeD)
    moreover from assms(1) have "list_all (\<lambda>i. i < length (heap st')) (roots st')"
      unfolding len unfolding st' state_ok_def
      by (auto simp: list_all_iff less_Suc_eq)
    ultimately show ?thesis by (simp add: state_ok_def)
  qed
qed

text \<open>In a well-formed store the materializer follows every child of a node.\<close>

lemma store_ok_children_followed:
  assumes "store_ok h" and "i < length h"
  shows "filter (\<lambda>c. i < c \<and> c < length h) (children (h ! i)) = children (h ! i)"
proof -
  from assms have "\<forall>c\<in>set (children (h ! i)). i < c \<and> c < length h"
    unfolding store_ok_iff by blast
  then show ?thesis by (simp add: filter_id_conv)
qed


lemma state_ok_init: "state_ok init_state"
  by (simp add: state_ok_def init_state_def store_ok_def)


text \<open>
  C3 (as amended). For a non-blank line that the classifier accepts with depth \<open>d\<close>, in any
  state the parser can be in: if \<open>d\<close> exceeds the length of the ancestor stack, parsing fails
  with "Inconsistent indentation" naming the line; if \<open>1 \<le> d\<close> and \<open>d\<close> is at most the length
  of the stack, the stack is cut to length \<open>d\<close>, the new node becomes the last child of the node
  at stack position \<open>d - 1\<close>, no other node changes, and the new node is pushed; if \<open>d = 0\<close> the
  new node has no parent, is appended to the roots, and the stack holds it alone.
\<close>

theorem depth_against_stack:
  assumes "state_ok st" and "strip line \<noteq> []"
    and "pattern_match line = Some (indent, connector, nm)"
  shows
    "(length (node_stack st) < depth_of indent connector \<longrightarrow>
        process_line st line = Inl (InconsistentIndentation line)) \<and>
     (0 < depth_of indent connector \<and> depth_of indent connector \<le> length (node_stack st) \<longrightarrow>
        (\<exists>st'. process_line st line = Inr st' \<and>
           node_stack st' = take (depth_of indent connector) (node_stack st) @ [length (heap st)] \<and>
           roots st' = roots st \<and>
           length (heap st') = Suc (length (heap st)) \<and>
           name (heap st' ! length (heap st)) = nm \<and>
           parent (heap st' ! length (heap st))
             = Some (node_stack st ! (depth_of indent connector - 1)) \<and>
           children (heap st' ! (node_stack st ! (depth_of indent connector - 1)))
             = children (heap st ! (node_stack st ! (depth_of indent connector - 1)))
               @ [length (heap st)] \<and>
           (\<forall>j<length (heap st). j \<noteq> node_stack st ! (depth_of indent connector - 1) \<longrightarrow>
               heap st' ! j = heap st ! j))) \<and>
     (depth_of indent connector = 0 \<longrightarrow>
        process_line st line =
          Inr \<lparr>heap = heap st @ [\<lparr>name = nm, parent = None, children = [],
                                  is_dir = endswith_slash nm, full_path = nm\<rparr>],
               node_stack = [length (heap st)], roots = roots st @ [length (heap st)]\<rparr>)"
proof (intro conjI impI)
  let ?d = "depth_of indent connector"
  note pl = process_line_cases[OF assms(2,3), of st]
  { assume "length (node_stack st) < ?d"
    with pl show "process_line st line = Inl (InconsistentIndentation line)" by simp }
  { assume "?d = 0"
    with pl show "process_line st line =
          Inr \<lparr>heap = heap st @ [\<lparr>name = nm, parent = None, children = [],
                                  is_dir = endswith_slash nm, full_path = nm\<rparr>],
               node_stack = [length (heap st)], roots = roots st @ [length (heap st)]\<rparr>" by simp }
  { assume d: "0 < ?d \<and> ?d \<le> length (node_stack st)"
    let ?p = "node_stack st ! (?d - 1)"
    from d have lp: "last (take ?d (node_stack st)) = ?p" by (simp add: last_take_nth)
    from d assms(1) have p: "?p < length (heap st)"
      by (auto simp: state_ok_def list_all_iff)
    let ?st' = "\<lparr>heap = add_child
                 (heap st @ [\<lparr>name = nm, parent = Some ?p,
                     children = [], is_dir = endswith_slash nm,
                     full_path = path_join (full_path (heap st ! ?p)) nm\<rparr>])
                 ?p (length (heap st)),
             node_stack = take ?d (node_stack st) @ [length (heap st)],
             roots = roots st\<rparr>"
    from pl d have e: "process_line st line = Inr ?st'" unfolding lp by simp
    have "node_stack ?st' = take ?d (node_stack st) @ [length (heap st)] \<and>
           roots ?st' = roots st \<and>
           length (heap ?st') = Suc (length (heap st)) \<and>
           name (heap ?st' ! length (heap st)) = nm \<and>
           parent (heap ?st' ! length (heap st)) = Some ?p \<and>
           children (heap ?st' ! ?p) = children (heap st ! ?p) @ [length (heap st)] \<and>
           (\<forall>j<length (heap st). j \<noteq> ?p \<longrightarrow> heap ?st' ! j = heap st ! j)"
      using p by (simp add: add_child_def nth_append nth_list_update)
    with e show "\<exists>st'. process_line st line = Inr st' \<and>
           node_stack st' = take ?d (node_stack st) @ [length (heap st)] \<and>
           roots st' = roots st \<and>
           length (heap st') = Suc (length (heap st)) \<and>
           name (heap st' ! length (heap st)) = nm \<and>
           parent (heap st' ! length (heap st)) = Some ?p \<and>
           children (heap st' ! ?p) = children (heap st ! ?p) @ [length (heap st)] \<and>
           (\<forall>j<length (heap st). j \<noteq> ?p \<longrightarrow> heap st' ! j = heap st ! j)"
      by blast }
qed

lemmas eval_defs = classifier_defs glyph_defs strip_def py_isspace_def depth_of_def replace_vbar_def
  endswith_slash_def startswith_slash_def path_join_def

theorem depth_against_stack_witness:
  "process_line root_only ([VBAR, SP, SP, SP, ELL, DASH, DASH, SP] @ asc ''b.txt'')
     = Inl (InconsistentIndentation ([VBAR, SP, SP, SP, ELL, DASH, DASH, SP] @ asc ''b.txt'')) \<and>
   (\<exists>st'. process_line root_only ([TEE, DASH, DASH, SP] @ asc ''a/'') = Inr st' \<and>
      node_stack st' = [0, 1] \<and> roots st' = [0] \<and> name (heap st' ! 1) = asc ''a/'' \<and>
      parent (heap st' ! 1) = Some 0 \<and> children (heap st' ! 0) = [1]) \<and>
   (\<exists>st'. process_line root_only (asc ''b'') = Inr st' \<and>
      node_stack st' = [1] \<and> roots st' = [0, 1] \<and> parent (heap st' ! 1) = None)"
proof -
  have ok: "state_ok root_only"
    by (simp add: state_ok_def store_ok_def root_only_def)
  let ?A = "[VBAR, SP, SP, SP, ELL, DASH, DASH, SP] @ asc ''b.txt''"
  let ?B = "[TEE, DASH, DASH, SP] @ asc ''a/''"
  let ?C = "asc ''b''"
  have a1: "strip ?A \<noteq> []" by (simp add: eval_defs)
  have a2: "pattern_match ?A = Some ([VBAR, SP, SP, SP], Some ELL, asc ''b.txt'')"
    by (simp add: eval_defs)
  have a3: "length (node_stack root_only) < depth_of [VBAR, SP, SP, SP] (Some ELL)"
    by (simp add: eval_defs root_only_def)
  have b1: "strip ?B \<noteq> []" by (simp add: eval_defs)
  have b2: "pattern_match ?B = Some ([], Some TEE, asc ''a/'')"
    by (simp add: eval_defs)
  have b3: "depth_of [] (Some TEE) = 1" by (simp add: eval_defs)
  have c1: "strip ?C \<noteq> []" by (simp add: eval_defs)
  have c2: "pattern_match ?C = Some ([], None, asc ''b'')"
    by (simp add: eval_defs)
  have c3: "depth_of [] None = 0" by (simp add: eval_defs)
  from depth_against_stack[OF ok a1 a2] a3
  have ra: "process_line root_only ?A = Inl (InconsistentIndentation ?A)" by blast
  from depth_against_stack[OF ok b1 b2] have
    "\<exists>st'. process_line root_only ?B = Inr st' \<and>
           node_stack st' = take 1 (node_stack root_only) @ [length (heap root_only)] \<and>
           roots st' = roots root_only \<and>
           length (heap st') = Suc (length (heap root_only)) \<and>
           name (heap st' ! length (heap root_only)) = asc ''a/'' \<and>
           parent (heap st' ! length (heap root_only))
             = Some (node_stack root_only ! (1 - 1)) \<and>
           children (heap st' ! (node_stack root_only ! (1 - 1)))
             = children (heap root_only ! (node_stack root_only ! (1 - 1)))
               @ [length (heap root_only)] \<and>
           (\<forall>j<length (heap root_only). j \<noteq> node_stack root_only ! (1 - 1) \<longrightarrow>
               heap st' ! j = heap root_only ! j)"
    unfolding b3 by (simp add: root_only_def)
  then have rb: "\<exists>st'. process_line root_only ?B = Inr st' \<and>
      node_stack st' = [0, 1] \<and> roots st' = [0] \<and> name (heap st' ! 1) = asc ''a/'' \<and>
      parent (heap st' ! 1) = Some 0 \<and> children (heap st' ! 0) = [1]"
    by (simp add: root_only_def) blast
  from depth_against_stack[OF ok c1 c2] c3
  have "process_line root_only ?C =
          Inr \<lparr>heap = heap root_only @ [\<lparr>name = asc ''b'', parent = None, children = [],
                                  is_dir = endswith_slash (asc ''b''), full_path = asc ''b''\<rparr>],
               node_stack = [length (heap root_only)],
               roots = roots root_only @ [length (heap root_only)]\<rparr>" by blast
  then have rc: "\<exists>st'. process_line root_only ?C = Inr st' \<and>
      node_stack st' = [1] \<and> roots st' = [0, 1] \<and> parent (heap st' ! 1) = None"
    by (simp add: root_only_def)
  from ra rb rc show ?thesis by blast
qed

text \<open>
  C3 as stated fails at \<open>d = 0\<close>: in the text of two lines \<open>a\<close> and \<open>b\<close>, the second line has
  depth 0, which is at most the stack length 1, yet \<open>b\<close> is attached to no node: it is a
  second root, and \<open>a\<close> has no child.
\<close>

theorem depth_zero_line_counterexample:
  "parse_tree_structure (asc ''a'' @ [NL] @ asc ''b'')
     = Inr ([\<lparr>name = asc ''a'', parent = None, children = [], is_dir = False, full_path = asc ''a''\<rparr>,
             \<lparr>name = asc ''b'', parent = None, children = [], is_dir = False, full_path = asc ''b''\<rparr>],
            [0, 1])"
  by (simp add: parse_tree_structure_def split_nl_def expand_tabs_def process_line_def
      new_TreeNode_def init_state_def eval_defs)

subsection \<open>A line the classifier rejects\<close>

text \<open>
  C6 (as amended). In \<open>hoc\<close> the loop raises "Invalid line format" exactly for a non-blank line
  that the pattern does not match, and the error names that line (by C10 no line of a text
  split at newlines is such a line). In \<open>dircreator\<close> a line after the first that its
  pattern does not match is skipped: the state stays as it was and nothing is raised.
\<close>

theorem rejected_line_raises_or_is_skipped:
  "(process_line st line = Inl (InvalidLineFormat l) \<longleftrightarrow>
      l = line \<and> strip line \<noteq> [] \<and> pattern_match line = None) \<and>
   (0 < idx \<and> dc_match line = None \<longrightarrow> dc_process_line dst (idx, line) = dst)"
  by (simp add: process_line_Invalid_iff dc_process_line_def)

theorem rejected_line_raises_or_is_skipped_witness:
  "process_line init_state (asc ''a'' @ [NL] @ asc ''b'')
     = Inl (InvalidLineFormat (asc ''a'' @ [NL] @ asc ''b'')) \<and>
   (0::nat) < 1 \<and> dc_match (asc ''  '' @ [TEE, DASH, DASH, SP] @ asc ''b.txt'') = None \<and>
   dc_process_line \<lparr>tree = [(asc ''root/'', Dir)], path_stack = [asc ''root/'']\<rparr>
       (1, asc ''  '' @ [TEE, DASH, DASH, SP] @ asc ''b.txt'')
     = \<lparr>tree = [(asc ''root/'', Dir)], path_stack = [asc ''root/'']\<rparr>"
proof -
  let ?L = "asc ''a'' @ [NL] @ asc ''b''"
  let ?M = "asc ''  '' @ [TEE, DASH, DASH, SP] @ asc ''b.txt''"
  let ?S = "\<lparr>tree = [(asc ''root/'', Dir)], path_stack = [asc ''root/'']\<rparr>"
  have h1: "strip ?L \<noteq> []" by (simp add: eval_defs)
  have h2: "pattern_match ?L = None" by (simp add: eval_defs)
  have h3: "dc_match ?M = None" by (simp add: eval_defs)
  from rejected_line_raises_or_is_skipped[of init_state ?L ?L] h1 h2
  have r1: "process_line init_state ?L = Inl (InvalidLineFormat ?L)" by blast
  from rejected_line_raises_or_is_skipped[of init_state ?M ?M 1 ?S] h3
  have r2: "dc_process_line ?S (1, ?M) = ?S" by simp
  from r1 r2 h3 show ?thesis by simp
qed

text \<open>
  C6 as stated fails in \<open>dircreator\<close>: the second line, a connector after two stray spaces,
  is rejected by its pattern and silently dropped; the result is the tree of the root alone.
\<close>

theorem dircreator_skips_rejected_line_counterexample:
  "dc_match (asc ''  '' @ [TEE, DASH, DASH, SP] @ asc ''b.txt'') = None \<and>
   dc_parse_tree_structure (asc ''root/'' @ [NL] @ asc ''  '' @ [TEE, DASH, DASH, SP] @ asc ''b.txt'')
     = [(asc ''root/'', Dir)]"
  by (simp add: dc_parse_tree_structure_def dc_process_line_def split_nl_def enumerate_eq_zip
      Let_def eval_defs)

subsection \<open>The first line\<close>

lemma strip_eq_Nil_iff: "strip l = [] \<longleftrightarrow> (\<forall>x\<in>set l. py_isspace x)"
proof -
  have "strip l = [] \<longleftrightarrow> (\<forall>x\<in>set (dropWhile py_isspace l). py_isspace x)"
    by (simp add: strip_def dropWhile_eq_Nil_conv)
  also have "\<dots> \<longleftrightarrow> dropWhile py_isspace l = []"
  proof
    assume a: "\<forall>x\<in>set (dropWhile py_isspace l). py_isspace x"
    show "dropWhile py_isspace l = []"
    proof (rule ccontr)
      assume n: "dropWhile py_isspace l \<noteq> []"
      then have "\<not> py_isspace (hd (dropWhile py_isspace l))" by (rule hd_dropWhile)
      moreover from n have "hd (dropWhile py_isspace l) \<in> set (dropWhile py_isspace l)" by simp
      ultimately show False using a by blast
    qed
  next
    assume e: "dropWhile py_isspace l = []"
    show "\<forall>x\<in>set (dropWhile py_isspace l). py_isspace x" unfolding e by simp
  qed
  also have "\<dots> \<longleftrightarrow> (\<forall>x\<in>set l. py_isspace x)"
    by (simp add: dropWhile_eq_Nil_conv)
  finally show ?thesis .
qed

lemma strip_prefix: "\<exists>n. strip s = take n (dropWhile py_isspace s)"
proof -
  let ?t = "dropWhile py_isspace s"
  have "dropWhile py_isspace (rev ?t) = drop (length (takeWhile py_isspace (rev ?t))) (rev ?t)"
    by (rule dropWhile_eq_drop)
  then have "strip s = rev (drop (length (takeWhile py_isspace (rev ?t))) (rev ?t))"
    by (simp add: strip_def)
  also have "\<dots> = take (length ?t - length (takeWhile py_isspace (rev ?t))) ?t"
    by (simp add: rev_drop)
  finally show ?thesis by blast
qed

lemma hd_strip: assumes "strip s \<noteq> []" shows "\<not> py_isspace (hd (strip s))"
proof -
  from strip_prefix obtain n where n: "strip s = take n (dropWhile py_isspace s)" by blast
  with assms have "0 < n" and ne: "dropWhile py_isspace s \<noteq> []" by (auto intro: gr0I)
  then have "hd (strip s) = hd (dropWhile py_isspace s)" unfolding n by simp
  with hd_dropWhile[OF ne] show ?thesis by simp
qed

lemma py_isspace_NL: "py_isspace NL" and py_isspace_TAB: "py_isspace TAB"
  by (simp_all add: py_isspace_def glyph_defs)

lemma split_on_Cons_notsep:
  "c \<noteq> sep \<Longrightarrow> \<exists>l ls. split_on sep (c # cs) = (c # l) # ls"
  by (cases "split_on sep cs") auto

lemma split_on_not_Nil [simp]: "split_on sep s \<noteq> []"
  by (induction s) (auto split: list.splits)

lemma first_line:
  assumes "strip s \<noteq> []"
  shows "\<exists>c l ls. split_nl (strip s) = (c # l) # ls \<and> \<not> py_isspace c"
proof -
  from assms obtain c cs where cs: "strip s = c # cs" by (cases "strip s") auto
  with hd_strip[OF assms] have c: "\<not> py_isspace c" by simp
  with py_isspace_NL have "c \<noteq> NL" by auto
  from split_on_Cons_notsep[OF this] c show ?thesis unfolding cs split_nl_def by blast
qed

lemma expand_tabs_Cons: "c \<noteq> TAB \<Longrightarrow> expand_tabs (c # l) = c # expand_tabs l"
  by (simp add: expand_tabs_def)

lemma strip_Cons_nonspace: "\<not> py_isspace c \<Longrightarrow> strip (c # l) \<noteq> []"
  by (auto simp: strip_eq_Nil_iff)

lemma process_line_Inconsistent:
  assumes "process_line st line = Inl (InconsistentIndentation l)"
  shows "l = line \<and> (\<exists>i c n. pattern_match line = Some (i, c, n) \<and> 0 < depth_of i c)"
proof -
  from assms have nb: "strip line \<noteq> []" by (auto simp: process_line_def split: if_splits)
  with assms obtain i c n where m: "pattern_match line = Some (i, c, n)"
    by (cases "pattern_match line") (auto simp: process_line_def)
  from assms show ?thesis unfolding process_line_cases[OF nb m]
    using m by (auto split: if_splits)
qed

lemma process_lines_Inconsistent:
  "process_lines st ls = Inl (InconsistentIndentation l) \<Longrightarrow>
     \<exists>i c n. pattern_match l = Some (i, c, n) \<and> 0 < depth_of i c"
proof (induction ls arbitrary: st)
  case Nil
  then show ?case by simp
next
  case (Cons a ls)
  show ?case
  proof (cases "process_line st a")
    case (Inl e)
    with Cons.prems have "process_line st a = Inl (InconsistentIndentation l)" by simp
    from process_line_Inconsistent[OF this] show ?thesis by blast
  next
    case (Inr st')
    with Cons.prems have "process_lines st' ls = Inl (InconsistentIndentation l)" by simp
    then show ?thesis by (rule Cons.IH)
  qed
qed

text \<open>Later lines leave the first root and its place alone.\<close>

lemma process_line_keeps:
  assumes "process_line st line = Inr st'"
  shows "(\<exists>ex. roots st' = roots st @ ex) \<and> length (heap st) \<le> length (heap st') \<and>
         (\<forall>i<length (heap st). name (heap st' ! i) = name (heap st ! i) \<and>
                                parent (heap st' ! i) = parent (heap st ! i) \<and>
                                full_path (heap st' ! i) = full_path (heap st ! i))"
proof (cases "strip line = []")
  case True
  with assms show ?thesis by (simp add: process_line_def)
next
  case False
  with assms obtain i c n where m: "pattern_match line = Some (i, c, n)"
    by (cases "pattern_match line") (auto simp: process_line_def)
  from assms show ?thesis unfolding process_line_cases[OF False m]
    by (auto simp: add_child_def nth_append nth_list_update split: if_splits)
qed

lemma process_lines_keeps:
  "process_lines st ls = Inr st' \<Longrightarrow>
     (\<exists>ex. roots st' = roots st @ ex) \<and> length (heap st) \<le> length (heap st') \<and>
     (\<forall>i<length (heap st). name (heap st' ! i) = name (heap st ! i) \<and>
                            parent (heap st' ! i) = parent (heap st ! i) \<and>
                            full_path (heap st' ! i) = full_path (heap st ! i))"
proof (induction ls arbitrary: st)
  case Nil
  then show ?case by simp
next
  case (Cons a ls)
  from Cons.prems obtain st1 where s1: "process_line st a = Inr st1"
    and s2: "process_lines st1 ls = Inr st'" by (auto split: sum.splits)
  from process_line_keeps[OF s1] Cons.IH[OF s2] show ?case
    by (auto simp: less_le_trans)
qed

lemma dict_set_keeps_head: "\<exists>v' r'. dict_set ((k, v) # d) k2 v2 = (k, v') # r'"
  by simp

lemma dc_process_line_keeps_head:
  assumes "tree st = (k, t) # r"
  shows "0 < fst il \<Longrightarrow> \<exists>t' r'. tree (dc_process_line st il) = (k, t') # r'"
  using assms dict_set_keeps_head[of k t r]
  by (auto simp: dc_process_line_def Let_def split: option.splits)

lemma dc_foldl_keeps_head:
  "\<forall>il\<in>set ils. 0 < fst il \<Longrightarrow> tree st = (k, t) # r \<Longrightarrow>
     \<exists>t' r'. tree (foldl dc_process_line st ils) = (k, t') # r'"
proof (induction ils arbitrary: st t r)
  case Nil
  then show ?case by simp
next
  case (Cons a ils)
  from Cons.prems have "0 < fst a" by simp
  from dc_process_line_keeps_head[OF Cons.prems(2) this] obtain t' r'
    where "tree (dc_process_line st a) = (k, t') # r'" by blast
  from Cons.IH[OF _ this] Cons.prems(1) show ?case by simp
qed

lemma dc_first_key:
  assumes "strip s \<noteq> []"
  shows "\<exists>t rest. dc_parse_tree_structure s =
           ((if endswith_slash (strip (first_line s)) then strip (first_line s)
             else strip (first_line s) @ [SLASH]), t) # rest"
proof -
  from first_line[OF assms] obtain c l ls where sp: "split_nl (strip s) = (c # l) # ls"
    and c: "\<not> py_isspace c" by blast
  let ?b = "if endswith_slash (strip (c # l)) then strip (c # l) else strip (c # l) @ [SLASH]"
  let ?st = "\<lparr>tree = [(?b, Dir)], path_stack = [?b]\<rparr>"
  have fl: "first_line s = c # l" by (simp add: first_line_def sp)
  have one: "dc_process_line \<lparr>tree = [], path_stack = []\<rparr> (0, c # l) = ?st"
    using strip_Cons_nonspace[OF c, of l] by (simp add: dc_process_line_def Let_def)
  have pos: "\<forall>il\<in>set (enumerate 1 ls). 0 < fst il"
    by (auto simp: in_set_enumerate_eq)
  have "tree ?st = (?b, Dir) # []" by simp
  from dc_foldl_keeps_head[OF pos this] obtain t' r' where
    "tree (foldl dc_process_line ?st (enumerate 1 ls)) = (?b, t') # r'" by blast
  then have "dc_parse_tree_structure s = (?b, t') # r'"
    by (simp add: dc_parse_tree_structure_def sp one del: dc_state.simps)
  then show ?thesis unfolding fl by blast
qed

lemma hoc_first_line:
  assumes "strip s \<noteq> []"
  shows "strip (expand_tabs (first_line s)) \<noteq> [] \<and> \<not> py_isspace (hd (first_line s)) \<and>
         pattern_match (expand_tabs (first_line s)) \<noteq> None \<and>
         (\<exists>ls. parse_tree_structure s =
            (case process_lines init_state (expand_tabs (first_line s) # ls) of
               Inl e \<Rightarrow> Inl e | Inr st \<Rightarrow> Inr (heap st, roots st)))"
proof -
  from first_line[OF assms] obtain c l ls where sp: "split_nl (strip s) = (c # l) # ls"
    and c: "\<not> py_isspace c" by blast
  have fl: "first_line s = c # l" by (simp add: first_line_def sp)
  from c py_isspace_TAB have "c \<noteq> TAB" by auto
  then have et: "expand_tabs (c # l) = c # expand_tabs l" by (rule expand_tabs_Cons)
  have nb: "strip (expand_tabs (c # l)) \<noteq> []" unfolding et using c by (rule strip_Cons_nonspace)
  have nb0: "strip (c # l) \<noteq> []" using c by (rule strip_Cons_nonspace)
  have "NL \<notin> set (c # l)"
    using split_on_no_sep[of "c # l" NL "strip s"] sp by (simp add: split_nl_def)
  then have "NL \<notin> set (expand_tabs (c # l))" by (rule expand_tabs_no_NL)
  moreover have "expand_tabs (c # l) \<noteq> []" unfolding et by simp
  ultimately have pm: "pattern_match (expand_tabs (c # l)) \<noteq> None"
    by (simp add: pattern_match_total)
  have "parse_tree_structure s =
            (case process_lines init_state (expand_tabs (c # l) # map expand_tabs ls) of
               Inl e \<Rightarrow> Inl e | Inr st \<Rightarrow> Inr (heap st, roots st))"
    using nb0 by (simp add: parse_tree_structure_def sp Let_def del: process_lines.simps)
  with nb pm c show ?thesis unfolding fl by auto
qed

text \<open>
  C4 (as amended). Of a text that is not blank, the first line is not blank and starts with a
  character that is not whitespace (the whole text was stripped). In \<open>hoc\<close> it is classified as
  every line is: when its depth is positive (a connector token, or units of the continuation
  glyph) parsing fails with "Inconsistent indentation" naming it; when its depth is 0 it
  raises no such error and, if parsing succeeds, the first root is the node of that line.
  In \<open>dircreator\<close> the first line is the root whatever it holds: the first key of the tree is
  the stripped line, with a separator appended when it does not end with one.
\<close>

theorem first_line_is_root_at_depth_zero_only:
  assumes "strip s \<noteq> []"
  shows "strip (expand_tabs (first_line s)) \<noteq> [] \<and> \<not> py_isspace (hd (first_line s)) \<and>
     pattern_match (expand_tabs (first_line s)) \<noteq> None \<and>
     (\<forall>i c n. pattern_match (expand_tabs (first_line s)) = Some (i, c, n) \<longrightarrow>
        (0 < depth_of i c \<longrightarrow>
           parse_tree_structure s = Inl (InconsistentIndentation (expand_tabs (first_line s)))) \<and>
        (depth_of i c = 0 \<longrightarrow>
           parse_tree_structure s \<noteq> Inl (InconsistentIndentation (expand_tabs (first_line s))) \<and>
           (\<forall>h rs. parse_tree_structure s = Inr (h, rs) \<longrightarrow>
              rs \<noteq> [] \<and> hd rs = 0 \<and> name (h ! 0) = n \<and> parent (h ! 0) = None))) \<and>
     (\<exists>t rest. dc_parse_tree_structure s =
        ((if endswith_slash (strip (first_line s)) then strip (first_line s)
          else strip (first_line s) @ [SLASH]), t) # rest)"
proof -
  let ?l0 = "expand_tabs (first_line s)"
  from hoc_first_line[OF assms] obtain ls where nb: "strip ?l0 \<noteq> []"
    and ns: "\<not> py_isspace (hd (first_line s))" and pm: "pattern_match ?l0 \<noteq> None"
    and ps: "parse_tree_structure s =
            (case process_lines init_state (?l0 # ls) of
               Inl e \<Rightarrow> Inl e | Inr st \<Rightarrow> Inr (heap st, roots st))" by blast
  have main: "(0 < depth_of i c \<longrightarrow> parse_tree_structure s = Inl (InconsistentIndentation ?l0)) \<and>
        (depth_of i c = 0 \<longrightarrow>
           parse_tree_structure s \<noteq> Inl (InconsistentIndentation ?l0) \<and>
           (\<forall>h rs. parse_tree_structure s = Inr (h, rs) \<longrightarrow>
              rs \<noteq> [] \<and> hd rs = 0 \<and> name (h ! 0) = n \<and> parent (h ! 0) = None))"
    if m: "pattern_match ?l0 = Some (i, c, n)" for i c n
  proof (intro conjI impI)
    note pl = process_line_cases[OF nb m, of init_state]
    { assume "0 < depth_of i c"
      with pl have "process_line init_state ?l0 = Inl (InconsistentIndentation ?l0)"
        by (simp add: init_state_def)
      then show "parse_tree_structure s = Inl (InconsistentIndentation ?l0)"
        unfolding ps by simp }
    { assume d0: "depth_of i c = 0"
      let ?st1 = "\<lparr>heap = [\<lparr>name = n, parent = None, children = [],
                                is_dir = endswith_slash n, full_path = n\<rparr>],
             node_stack = [0::nat], roots = [0::nat]\<rparr>"
      from pl d0 have p1: "process_line init_state ?l0 = Inr ?st1" by (simp add: init_state_def)
      then have ps': "parse_tree_structure s =
            (case process_lines ?st1 ls of
               Inl e \<Rightarrow> Inl e | Inr st \<Rightarrow> Inr (heap st, roots st))"
        unfolding ps by simp
      show "parse_tree_structure s \<noteq> Inl (InconsistentIndentation ?l0)"
      proof
        assume "parse_tree_structure s = Inl (InconsistentIndentation ?l0)"
        then have "process_lines ?st1 ls = Inl (InconsistentIndentation ?l0)"
          unfolding ps' by (auto split: sum.splits)
        from process_lines_Inconsistent[OF this] m d0 show False by auto
      qed
      show "\<forall>h rs. parse_tree_structure s = Inr (h, rs) \<longrightarrow>
              rs \<noteq> [] \<and> hd rs = 0 \<and> name (h ! 0) = n \<and> parent (h ! 0) = None"
      proof (intro allI impI)
        fix h rs assume "parse_tree_structure s = Inr (h, rs)"
        then obtain st where st: "process_lines ?st1 ls = Inr st" "h = heap st" "rs = roots st"
          unfolding ps' by (auto split: sum.splits)
        from process_lines_keeps[OF st(1)] st(2,3)
        show "rs \<noteq> [] \<and> hd rs = 0 \<and> name (h ! 0) = n \<and> parent (h ! 0) = None"
          by auto
      qed }
  qed
  from nb ns pm main dc_first_key[OF assms] show ?thesis by blast
qed

lemmas parse_defs = parse_tree_structure_def split_nl_def expand_tabs_def process_line_def
  new_TreeNode_def add_child_def init_state_def first_line_def

lemma example_tree_parse: "parse_tree_structure example_tree = Inr (example_store, [0])"
  by (simp add: example_tree_def example_store_def parse_defs eval_defs)

text \<open>
  C4 as stated fails in \<open>hoc\<close>: a text whose first line carries a connector token (depth 1
  against an empty stack) is refused with "Inconsistent indentation"; no root is produced.
  The repository's \<open>test_parse_tree_structure_invalid\<close> expects this error for such a text.
\<close>

theorem first_line_with_connector_counterexample:
  "parse_tree_structure ([TEE, DASH, DASH, SP] @ asc ''README.md'')
     = Inl (InconsistentIndentation ([TEE, DASH, DASH, SP] @ asc ''README.md''))"
  by (simp add: parse_defs eval_defs)

theorem first_line_is_root_at_depth_zero_only_witness:
  "strip ([TEE, DASH, DASH, SP] @ asc ''README.md'') \<noteq> [] \<and>
   pattern_match (expand_tabs (first_line ([TEE, DASH, DASH, SP] @ asc ''README.md'')))
     = Some ([], Some TEE, asc ''README.md'') \<and>
   0 < depth_of [] (Some TEE) \<and>
   parse_tree_structure ([TEE, DASH, DASH, SP] @ asc ''README.md'')
     = Inl (InconsistentIndentation
             (expand_tabs (first_line ([TEE, DASH, DASH, SP] @ asc ''README.md'')))) \<and>
   strip example_tree \<noteq> [] \<and>
   pattern_match (expand_tabs (first_line example_tree)) = Some ([], None, asc ''root/'') \<and>
   depth_of [] None = 0 \<and>
   parse_tree_structure example_tree = Inr (example_store, [0]) \<and>
   [0::nat] \<noteq> [] \<and> hd [0::nat] = 0 \<and> name (example_store ! 0) = asc ''root/'' \<and>
   parent (example_store ! 0) = None"
proof -
  let ?R = "[TEE, DASH, DASH, SP] @ asc ''README.md''"
  have a1: "strip ?R \<noteq> []" by (simp add: eval_defs)
  have a2: "pattern_match (expand_tabs (first_line ?R)) = Some ([], Some TEE, asc ''README.md'')"
    by (simp add: parse_defs eval_defs)
  have a3: "0 < depth_of [] (Some TEE)" by (simp add: eval_defs)
  have b1: "strip example_tree \<noteq> []" by (simp add: example_tree_def eval_defs)
  have b2: "pattern_match (expand_tabs (first_line example_tree)) = Some ([], None, asc ''root/'')"
    by (simp add: example_tree_def parse_defs eval_defs)
  have b3: "depth_of [] None = 0" by (simp add: eval_defs)
  note b4 = example_tree_parse
  from first_line_is_root_at_depth_zero_only[OF a1] a2 a3
  have ra: "parse_tree_structure ?R = Inl (InconsistentIndentation (expand_tabs (first_line ?R)))"
    by blast
  from first_line_is_root_at_depth_zero_only[OF b1] b2 b3 b4
  have rb: "[0::nat] \<noteq> [] \<and> hd [0::nat] = 0 \<and> name (example_store ! 0) = asc ''root/'' \<and>
            parent (example_store ! 0) = None"
    by blast
  from a1 a2 a3 ra b1 b2 b3 b4 rb show ?thesis by blast
qed

subsection \<open>Names and paths\<close>

declare create_node_structure.simps [simp del]

lemma path_join_suffix: "\<exists>pre. path_join a b = pre @ b"
  by (simp add: path_join_def)

lemma endswith_slash_append: "endswith_slash b \<Longrightarrow> endswith_slash (pre @ b)"
  by (simp add: endswith_slash_def)

lemma path_join_keeps_marker: "endswith_slash b \<Longrightarrow> endswith_slash (path_join a b)"
  using path_join_suffix[of a b] by (auto simp: endswith_slash_append)

lemma doubled_sep_append:
  "doubled_sep (xs @ ys) \<longleftrightarrow>
     doubled_sep xs \<or> doubled_sep ys \<or> (xs \<noteq> [] \<and> ys \<noteq> [] \<and> last xs = SLASH \<and> hd ys = SLASH)"
proof (induction xs)
  case Nil
  then show ?case by simp
next
  case (Cons a xs)
  note ih = Cons.IH
  show ?case
  proof (cases xs)
    case Nil
    then show ?thesis by (cases ys) auto
  next
    case (Cons b r)
    with ih show ?thesis by auto
  qed
qed

lemma path_join_no_double:
  assumes "\<not> doubled_sep a" and "\<not> doubled_sep b" and "\<not> startswith_slash b"
  shows "\<not> doubled_sep (path_join a b)"
proof (cases "a = [] \<or> endswith_slash a")
  case True
  with assms show ?thesis
    by (auto simp: path_join_def doubled_sep_append startswith_slash_def)
next
  case False
  then have "a \<noteq> []" "last a \<noteq> SLASH" by (auto simp: endswith_slash_def)
  with assms False have "\<not> doubled_sep (a @ [SLASH])"
    by (simp add: doubled_sep_append)
  with assms have "\<not> doubled_sep ((a @ [SLASH]) @ b)"
    unfolding doubled_sep_append[of "a @ [SLASH]" b] by (auto simp: startswith_slash_def)
  with assms(3) False show ?thesis by (simp add: path_join_def)
qed

lemma new_TreeNode_fields:
  assumes "new_TreeNode h nm isd par = (h', i)"
  shows "i = length h \<and> name (h' ! i) = nm \<and>
         full_path (h' ! i) = (case par of None \<Rightarrow> nm | Some p \<Rightarrow> path_join (full_path (h ! p)) nm)"
proof (cases par)
  case None
  with assms show ?thesis by (auto simp: new_TreeNode_def Let_def)
next
  case (Some p)
  with assms have i: "i = length h" and h': "h' = add_child (h @ [\<lparr>name = nm, parent = Some p,
      children = [], is_dir = isd, full_path = path_join (full_path (h ! p)) nm\<rparr>]) p (length h)"
    by (auto simp: new_TreeNode_def Let_def)
  show ?thesis unfolding h' i using Some
    by (cases "p = length h") (simp_all add: add_child_def)
qed

lemma paths_ok_process_line:
  assumes "paths_ok (heap st)" and "process_line st line = Inr st'"
  shows "paths_ok (heap st')"
proof (cases "strip line = []")
  case True
  with assms show ?thesis by (simp add: process_line_def)
next
  case False
  with assms(2) obtain i c n where m: "pattern_match line = Some (i, c, n)"
    by (cases "pattern_match line") (auto simp: process_line_def)
  note keeps = process_line_keeps[OF assms(2)]
  let ?k = "length (heap st)"
  from assms(2) have new: "length (heap st') = Suc ?k \<and> name (heap st' ! ?k) = n \<and>
      (\<exists>pre. full_path (heap st' ! ?k) = pre @ n)"
    unfolding process_line_cases[OF False m]
    using path_join_suffix[of "full_path (heap st ! last (take (depth_of i c) (node_stack st)))" n]
    by (cases "last (take (depth_of i c) (node_stack st)) = ?k")
       (auto simp: add_child_def nth_append split: if_splits)
  show ?thesis unfolding paths_ok_def
  proof (intro allI impI)
    fix j assume "j < length (heap st')"
    with new have "j < ?k \<or> j = ?k" by auto
    then show "\<exists>pre. full_path (heap st' ! j) = pre @ name (heap st' ! j)"
    proof
      assume "j < ?k"
      with keeps assms(1) show ?thesis by (auto simp: paths_ok_def)
    next
      assume "j = ?k"
      with new show ?thesis by auto
    qed
  qed
qed

lemma paths_ok_process_lines:
  "paths_ok (heap st) \<Longrightarrow> process_lines st ls = Inr st' \<Longrightarrow> paths_ok (heap st')"
proof (induction ls arbitrary: st)
  case Nil
  then show ?case by simp
next
  case (Cons a ls)
  then show ?case by (auto split: sum.splits dest: paths_ok_process_line)
qed

lemma parse_paths_ok:
  assumes "parse_tree_structure s = Inr (h, rs)"
  shows "paths_ok h"
proof -
  from assms obtain st where "process_lines init_state (map expand_tabs (split_nl (strip s))) = Inr st"
    and "h = heap st"
    by (auto simp: parse_tree_structure_def Let_def split: if_splits sum.splits)
  moreover have "paths_ok (heap init_state)" by (simp add: paths_ok_def init_state_def)
  ultimately show ?thesis by (auto dest: paths_ok_process_lines)
qed

text \<open>
  C7 (as amended). A node keeps its name as written, marker included, and its path is the
  name (a root) or \<open>os.path.join\<close> of the parent's path and the name. A join ends with its
  second argument, so it keeps a trailing marker, and it adds no doubled separator: when
  neither argument holds one and the second does not start with a separator, the result
  holds none. Hence in every parsed tree the path of a node ends with the node's name, and
  for a name with the marker both the node's path and the path under the base directory that
  the materializer builds end with the marker.
\<close>

theorem marker_kept_join_adds_no_double:
  "(new_TreeNode h nm isd par = (h', i) \<longrightarrow>
      name (h' ! i) = nm \<and>
      full_path (h' ! i) = (case par of None \<Rightarrow> nm | Some p \<Rightarrow> path_join (full_path (h ! p)) nm)) \<and>
   (\<exists>pre. path_join a b = pre @ b) \<and>
   (endswith_slash b \<longrightarrow> endswith_slash (path_join a b)) \<and>
   (\<not> doubled_sep a \<and> \<not> doubled_sep b \<and> \<not> startswith_slash b \<longrightarrow>
      \<not> doubled_sep (path_join a b)) \<and>
   (parse_tree_structure s = Inr (hp, rs) \<and> j < length hp \<longrightarrow>
      (\<exists>pre. full_path (hp ! j) = pre @ name (hp ! j)) \<and>
      (endswith_slash (name (hp ! j)) \<longrightarrow>
         endswith_slash (full_path (hp ! j)) \<and>
         endswith_slash (path_join base_path (full_path (hp ! j)))))"
proof (intro conjI impI)
  assume "new_TreeNode h nm isd par = (h', i)"
  from new_TreeNode_fields[OF this]
  show "name (h' ! i) = nm" and "full_path (h' ! i) =
      (case par of None \<Rightarrow> nm | Some p \<Rightarrow> path_join (full_path (h ! p)) nm)" by blast+
next
  show "\<exists>pre. path_join a b = pre @ b" by (rule path_join_suffix)
next
  assume "endswith_slash b" then show "endswith_slash (path_join a b)"
    by (rule path_join_keeps_marker)
next
  assume "\<not> doubled_sep a \<and> \<not> doubled_sep b \<and> \<not> startswith_slash b"
  then show "\<not> doubled_sep (path_join a b)" by (simp add: path_join_no_double)
next
  assume a: "parse_tree_structure s = Inr (hp, rs) \<and> j < length hp"
  with parse_paths_ok[of s hp rs] show sfx: "\<exists>pre. full_path (hp ! j) = pre @ name (hp ! j)"
    by (auto simp: paths_ok_def)
  assume e: "endswith_slash (name (hp ! j))"
  with sfx show f: "endswith_slash (full_path (hp ! j))" by (auto simp: endswith_slash_append)
  then show "endswith_slash (path_join base_path (full_path (hp ! j)))"
    by (rule path_join_keeps_marker)
qed

theorem marker_kept_join_adds_no_double_witness:
  "new_TreeNode [] (asc ''root/'') True None
     = ([\<lparr>name = asc ''root/'', parent = None, children = [], is_dir = True,
          full_path = asc ''root/''\<rparr>], 0) \<and>
   endswith_slash (asc ''a/'') \<and> path_join (asc ''root/'') (asc ''a/'') = asc ''root/a/'' \<and>
   endswith_slash (path_join (asc ''root/'') (asc ''a/'')) \<and>
   \<not> doubled_sep (asc ''root/'') \<and> \<not> doubled_sep (asc ''a/'') \<and> \<not> startswith_slash (asc ''a/'') \<and>
   \<not> doubled_sep (path_join (asc ''root/'') (asc ''a/'')) \<and>
   parse_tree_structure example_tree = Inr (example_store, [0]) \<and> (1::nat) < length example_store \<and>
   endswith_slash (name (example_store ! 1)) \<and> endswith_slash (full_path (example_store ! 1)) \<and>
   endswith_slash (path_join (asc ''/tmp/x'') (full_path (example_store ! 1)))"
proof -
  have n: "new_TreeNode [] (asc ''root/'') True None
     = ([\<lparr>name = asc ''root/'', parent = None, children = [], is_dir = True,
          full_path = asc ''root/''\<rparr>], 0)" by (simp add: new_TreeNode_def)
  have e: "endswith_slash (asc ''a/'')" by (simp add: eval_defs)
  have j: "path_join (asc ''root/'') (asc ''a/'') = asc ''root/a/''" by (simp add: eval_defs)
  have d: "\<not> doubled_sep (asc ''root/'') \<and> \<not> doubled_sep (asc ''a/'') \<and> \<not> startswith_slash (asc ''a/'')"
    by (simp add: eval_defs)
  have l: "(1::nat) < length example_store" by (simp add: example_store_def)
  have m: "endswith_slash (name (example_store ! 1))" by (simp add: example_store_def eval_defs)
  note t = marker_kept_join_adds_no_double[of "[]" "asc ''root/''" True None _ 0
              "asc ''root/''" "asc ''a/''" example_tree example_store "[0]" 1 "asc ''/tmp/x''"]
  from t e have r1: "endswith_slash (path_join (asc ''root/'') (asc ''a/''))" by blast
  from t d have r2: "\<not> doubled_sep (path_join (asc ''root/'') (asc ''a/''))" by blast
  from t example_tree_parse l m have r3: "endswith_slash (full_path (example_store ! 1)) \<and>
   endswith_slash (path_join (asc ''/tmp/x'') (full_path (example_store ! 1)))" by blast
  from n e j d l m r1 r2 r3 example_tree_parse show ?thesis by blast
qed

text \<open>
  C7 as stated fails: for the directory \<open>a/\<close> of the example the path stored in the node is
  \<open>root/a/\<close> and the path passed to \<open>os.makedirs\<close> is \<open>/tmp/x/root/a/\<close>, marker included.
  The repository's \<open>test_treenode\<close> expects \<open>get_path()\<close> of \<open>root/\<close> to be \<open>root/\<close>.
\<close>

theorem marker_not_stripped_counterexample:
  "parse_tree_structure example_tree = Inr (example_store, [0]) \<and>
   name (example_store ! 1) = asc ''a/'' \<and>
   full_path (example_store ! 1) = asc ''root/a/'' \<and>
   create_node_structure (asc ''/tmp/x'') example_store None None 1
     = [MakeDirs (asc ''/tmp/x/root/a/''), MakeDirs (asc ''/tmp/x/root/a''),
        OpenW (asc ''/tmp/x/root/a/b.txt'')]"
  by (simp add: example_tree_parse) (simp add: example_store_def create_node_structure.simps
      dirname_def eval_defs)

subsection \<open>The first example\<close>

lemmas fs_defs = os_makedirs_def os_open_w_def os_chmod_def resolve_def path_comps_def
  start_loc_def is_dir_at_def with_mode_def os_path_exists_def os_path_isdir_def dirname_def

lemma example_tree_ops:
  "create_structure_from_tree (asc ''/tmp/x'') example_store [0] None None =
     [MakeDirs (asc ''/tmp/x/root/''),
      MakeDirs (asc ''/tmp/x/root/a/''),
      MakeDirs (asc ''/tmp/x/root/a''), OpenW (asc ''/tmp/x/root/a/b.txt''),
      MakeDirs (asc ''/tmp/x/root''), OpenW (asc ''/tmp/x/root/c.txt'')]"
  by (simp add: create_structure_from_tree_def example_store_def create_node_structure.simps
      dirname_def eval_defs)

text \<open>
  C1. The text of the example parses to one root \<open>root/\<close> with the children \<open>a/\<close> and \<open>c.txt\<close>
  in this order, \<open>a/\<close> with the single child \<open>b.txt\<close> (\<open>example_store\<close>). Materializing it
  under \<open>/tmp/x\<close>, in a filesystem where \<open>/tmp/x\<close> is a directory and holds none of the four
  entries, succeeds and adds the directories \<open>/tmp/x/root\<close> and \<open>/tmp/x/root/a\<close> and the empty
  files \<open>/tmp/x/root/a/b.txt\<close> and \<open>/tmp/x/root/c.txt\<close>; every other location is as before.
\<close>

theorem example_parses_and_materializes:
  assumes "f [] = Some (DirEntry m0)" and "f [asc ''tmp''] = Some (DirEntry m1)"
    and "f [asc ''tmp'', asc ''x''] = Some (DirEntry m2)"
    and "f [asc ''tmp'', asc ''x'', asc ''root''] = None"
    and "f [asc ''tmp'', asc ''x'', asc ''root'', asc ''a''] = None"
    and "f [asc ''tmp'', asc ''x'', asc ''root'', asc ''a'', asc ''b.txt''] = None"
    and "f [asc ''tmp'', asc ''x'', asc ''root'', asc ''c.txt''] = None"
  shows "parse_tree_structure example_tree = Inr (example_store, [0]) \<and>
     run_ops env f (create_structure_from_tree (asc ''/tmp/x'') example_store [0] None None) =
       (f([asc ''tmp'', asc ''x'', asc ''root''] \<mapsto> DirEntry (new_dir_mode env),
          [asc ''tmp'', asc ''x'', asc ''root'', asc ''a''] \<mapsto> DirEntry (new_dir_mode env),
          [asc ''tmp'', asc ''x'', asc ''root'', asc ''a'', asc ''b.txt'']
             \<mapsto> FileEntry (new_file_mode env) [],
          [asc ''tmp'', asc ''x'', asc ''root'', asc ''c.txt'']
             \<mapsto> FileEntry (new_file_mode env) []),
        True)"
  unfolding example_tree_ops using assms
  by (simp add: example_tree_parse fs_defs eval_defs)

theorem example_parses_and_materializes_witness:
  "run_ops example_env example_fs
      (create_structure_from_tree (asc ''/tmp/x'') example_store [0] None None) =
     (example_fs([asc ''tmp'', asc ''x'', asc ''root''] \<mapsto> DirEntry 448,
          [asc ''tmp'', asc ''x'', asc ''root'', asc ''a''] \<mapsto> DirEntry 448,
          [asc ''tmp'', asc ''x'', asc ''root'', asc ''a'', asc ''b.txt''] \<mapsto> FileEntry 384 [],
          [asc ''tmp'', asc ''x'', asc ''root'', asc ''c.txt''] \<mapsto> FileEntry 384 []),
      True)"
  using example_parses_and_materializes[of example_fs 493 1023 448 example_env]
  by (simp add: example_fs_def example_env_def)

subsection \<open>Errors of the parse stage and the filesystem\<close>

lemma main_parse_stage:
  assumes "main env f path input_file clipboard dp fp = (oc, f')"
    and "oc = ReadError \<or> (\<exists>e. oc = ParsingError e)"
  shows "f' = (if os_path_exists env f path then f else fst (os_makedirs env f path))"
proof (cases "os_path_exists env f path")
  case True
  with assms show ?thesis
    by (auto simp: main_def Let_def split: if_splits sum.splits prod.splits bool.splits)
next
  case False
  obtain f1 ok1 where m: "os_makedirs env f path = (f1, ok1)" by (cases "os_makedirs env f path")
  with False assms show ?thesis
    by (auto simp: main_def Let_def split: if_splits sum.splits prod.splits bool.splits)
qed

lemma dc_main_parse_stage:
  assumes "dc_main env f path input = (oc, f')"
    and "oc = ReadError \<or> (\<exists>e. oc = ParsingError e)"
  shows "oc = ReadError \<and> f' = (if os_path_exists env f path then f else fst (os_makedirs env f path))"
proof (cases "os_path_exists env f path")
  case True
  with assms show ?thesis
    by (auto simp: dc_main_def Let_def split: if_splits prod.splits bool.splits)
next
  case False
  obtain f1 ok1 where m: "os_makedirs env f path = (f1, ok1)" by (cases "os_makedirs env f path")
  with False assms show ?thesis
    by (auto simp: dc_main_def Let_def split: if_splits prod.splits bool.splits)
qed

text \<open>
  C8 (as amended). When a run of \<open>hoc\<close> ends with an empty-input error or a parse error, the
  filesystem is the one the run started with, except that the base directory (with its
  missing ancestors) has been created when the base path did not exist: \<open>main\<close> creates it
  before it reads and parses the text, and calls nothing else before parsing has succeeded.
  The same holds for \<open>dircreator\<close>, whose parser raises no error of its own.
\<close>

theorem parse_error_after_base_dir_only:
  "(main env f path input_file clipboard dp fp = (oc, f') \<and>
      (oc = ReadError \<or> (\<exists>e. oc = ParsingError e)) \<longrightarrow>
        f' = (if os_path_exists env f path then f else fst (os_makedirs env f path))) \<and>
   (dc_main env f path input = (oc, f') \<and> (oc = ReadError \<or> (\<exists>e. oc = ParsingError e)) \<longrightarrow>
        oc = ReadError \<and>
        f' = (if os_path_exists env f path then f else fst (os_makedirs env f path)))"
  using main_parse_stage dc_main_parse_stage by blast

text \<open>
  C8 as stated fails: with the base path \<open>/tmp/new\<close> absent and a text whose first line
  carries a connector, the run ends with the parse error and \<open>/tmp/new\<close> has been created.
\<close>

theorem base_dir_created_before_parse_counterexample:
  "example_fs [asc ''tmp'', asc ''new''] = None \<and>
   main example_env example_fs (asc ''/tmp/new'') None ([TEE, DASH, DASH, SP] @ asc ''README.md'')
        None None
     = (ParsingError (InconsistentIndentation ([TEE, DASH, DASH, SP] @ asc ''README.md'')),
        example_fs([asc ''tmp'', asc ''new''] \<mapsto> DirEntry 448))"
  by (simp add: main_def parse_defs example_fs_def example_env_def fs_defs eval_defs)

theorem parse_error_after_base_dir_only_witness:
  "main example_env example_fs (asc ''/tmp/new'') None ([TEE, DASH, DASH, SP] @ asc ''README.md'')
        None None
     = (ParsingError (InconsistentIndentation ([TEE, DASH, DASH, SP] @ asc ''README.md'')),
        example_fs([asc ''tmp'', asc ''new''] \<mapsto> DirEntry 448)) \<and>
   \<not> os_path_exists example_env example_fs (asc ''/tmp/new'') \<and>
   example_fs([asc ''tmp'', asc ''new''] \<mapsto> DirEntry 448)
     = fst (os_makedirs example_env example_fs (asc ''/tmp/new'')) \<and>
   main example_env example_fs (asc ''/tmp/x'') None [SP, NL] None None = (ReadError, example_fs) \<and>
   dc_main example_env example_fs (asc ''/tmp/x'') [SP, NL] = (ReadError, example_fs) \<and>
   os_path_exists example_env example_fs (asc ''/tmp/x'')"
proof -
  let ?R = "[TEE, DASH, DASH, SP] @ asc ''README.md''"
  let ?g = "example_fs([asc ''tmp'', asc ''new''] \<mapsto> DirEntry 448)"
  have a: "main example_env example_fs (asc ''/tmp/new'') None ?R None None
     = (ParsingError (InconsistentIndentation ?R), ?g)"
    by (simp add: main_def parse_defs example_fs_def example_env_def fs_defs eval_defs)
  have b: "\<not> os_path_exists example_env example_fs (asc ''/tmp/new'')"
    by (simp add: example_fs_def example_env_def fs_defs eval_defs)
  have c: "main example_env example_fs (asc ''/tmp/x'') None [SP, NL] None None
     = (ReadError, example_fs)"
    by (simp add: main_def example_fs_def example_env_def fs_defs eval_defs)
  have d: "dc_main example_env example_fs (asc ''/tmp/x'') [SP, NL] = (ReadError, example_fs)"
    by (simp add: dc_main_def example_fs_def example_env_def fs_defs eval_defs)
  have e: "os_path_exists example_env example_fs (asc ''/tmp/x'')"
    by (simp add: example_fs_def example_env_def fs_defs eval_defs)
  from parse_error_after_base_dir_only
         [of example_env example_fs "asc ''/tmp/new''" None ?R None None
             "ParsingError (InconsistentIndentation ?R)" ?g] a b
  have r1: "?g = fst (os_makedirs example_env example_fs (asc ''/tmp/new''))" by auto
  from parse_error_after_base_dir_only
         [of example_env example_fs "asc ''/tmp/x''" None "[SP, NL]" None None
             ReadError example_fs "[SP, NL]"] c d e
  have r2: "example_fs = example_fs" by auto
  from a b c d e r1 show ?thesis by blast
qed


subsection \<open>A parent written without the marker\<close>

lemmas dc_defs = dc_parse_tree_structure_def dc_process_line_def split_nl_def enumerate_eq_zip
  dc_depth_def create_structure_def dc_create_item_def dc_set_permissions_def splitext_ext_def
  Let_def

text \<open>
  C5, in \<open>dircreator\<close>: the entry \<open>a\<close> has no marker and gains the child \<open>b.txt\<close>, yet it is
  recorded as a file; it is created as an empty regular file, and \<open>os.makedirs\<close> for the
  parent of \<open>b.txt\<close> then raises, so the run ends in error with \<open>b.txt\<close> missing.
\<close>

theorem dircreator_markerless_parent_is_file:
  "dc_parse_tree_structure markerless_parent
     = [(asc ''root/'', Dir), (asc ''root/a'', File), (asc ''root/a/b.txt'', File)] \<and>
   dc_main example_env example_fs (asc ''/tmp/x'') markerless_parent
     = (UnexpectedError,
        example_fs([asc ''tmp'', asc ''x'', asc ''root''] \<mapsto> DirEntry 493,
                   [asc ''tmp'', asc ''x'', asc ''root'', asc ''a''] \<mapsto> FileEntry 420 []))"
proof -
  have p: "dc_parse_tree_structure markerless_parent
     = [(asc ''root/'', Dir), (asc ''root/a'', File), (asc ''root/a/b.txt'', File)]"
    by (simp add: markerless_parent_def dc_defs eval_defs)
  have s: "strip markerless_parent \<noteq> []" by (simp add: markerless_parent_def eval_defs)
  have "dc_main example_env example_fs (asc ''/tmp/x'') markerless_parent
     = (UnexpectedError,
        example_fs([asc ''tmp'', asc ''x'', asc ''root''] \<mapsto> DirEntry 493,
                   [asc ''tmp'', asc ''x'', asc ''root'', asc ''a''] \<mapsto> FileEntry 420 []))"
    unfolding dc_main_def p using s
    by (simp add: example_fs_def example_env_def dc_defs fs_defs eval_defs)
  with p show ?thesis by simp
qed

text \<open>On the same text \<open>hoc\<close> promotes \<open>a\<close> and creates it as a directory.\<close>

lemma hoc_markerless_parent_is_directory:
  "main example_env example_fs (asc ''/tmp/x'') None markerless_parent None None
     = (Created,
        example_fs([asc ''tmp'', asc ''x'', asc ''root''] \<mapsto> DirEntry 448,
                   [asc ''tmp'', asc ''x'', asc ''root'', asc ''a''] \<mapsto> DirEntry 448,
                   [asc ''tmp'', asc ''x'', asc ''root'', asc ''a'', asc ''b.txt'']
                      \<mapsto> FileEntry 384 []))"
proof -
  have p: "parse_tree_structure markerless_parent =
     Inr ([\<lparr>name = asc ''root/'', parent = None, children = [1], is_dir = True,
            full_path = asc ''root/''\<rparr>,
           \<lparr>name = asc ''a'', parent = Some 0, children = [2], is_dir = True,
            full_path = asc ''root/a''\<rparr>,
           \<lparr>name = asc ''b.txt'', parent = Some 1, children = [], is_dir = False,
            full_path = asc ''root/a/b.txt''\<rparr>], [0])"
    by (simp add: markerless_parent_def parse_defs eval_defs)
  have s: "strip markerless_parent \<noteq> []" by (simp add: markerless_parent_def eval_defs)
  show ?thesis
    by (simp add: main_def p s)
       (simp add: example_fs_def example_env_def create_structure_from_tree_def
        create_node_structure.simps fs_defs eval_defs)
qed

text \<open>
  In \<open>hoc\<close> the promotion holds in general: attaching a child sets the flag of the parent,
  so in every parsed tree a node with a child is a directory. (That such a node is created
  as a directory is part of \<open>hoc_run_establishes\<close> below.)
\<close>

lemma add_child_promotes:
  assumes "p < length h"
  shows "is_dir (add_child h p c ! p) \<and> children (add_child h p c ! p) = children (h ! p) @ [c]"
  using assms by (simp add: add_child_def)

lemma promoted_process_line:
  assumes "state_ok st"
    and "\<forall>j<length (heap st). children (heap st ! j) \<noteq> [] \<longrightarrow> is_dir (heap st ! j)"
    and "process_line st line = Inr st'"
  shows "\<forall>j<length (heap st'). children (heap st' ! j) \<noteq> [] \<longrightarrow> is_dir (heap st' ! j)"
proof (cases "strip line = []")
  case True
  with assms show ?thesis by (simp add: process_line_def)
next
  case False
  with assms(3) obtain indent connector nm where m: "pattern_match line = Some (indent, connector, nm)"
    by (cases "pattern_match line") (auto simp: process_line_def)
  let ?d = "depth_of indent connector"
  let ?k = "length (heap st)"
  note pl = process_line_cases[OF False m, of st]
  show ?thesis
  proof (cases "?d = 0")
    case True
    let ?n = "\<lparr>name = nm, parent = None, children = [], is_dir = endswith_slash nm, full_path = nm\<rparr>"
    from pl assms(3) True have st': "heap st' = heap st @ [?n]" by auto
    show ?thesis unfolding st'
    proof (intro allI impI)
      fix j assume "j < length (heap st @ [?n])" and c: "children ((heap st @ [?n]) ! j) \<noteq> []"
      then have "j < ?k \<or> j = ?k" by auto
      then show "is_dir ((heap st @ [?n]) ! j)"
      proof
        assume j: "j < ?k"
        then have e: "(heap st @ [?n]) ! j = heap st ! j" by (simp add: nth_append)
        from c assms(2) j show ?thesis unfolding e by blast
      next
        assume "j = ?k"
        with c show ?thesis by simp
      qed
    qed
  next
    case False
    with pl assms(3) have le: "?d \<le> length (node_stack st)" by (auto split: if_splits)
    let ?p = "last (take ?d (node_stack st))"
    from False le have "?p = node_stack st ! (?d - 1)" by (simp add: last_take_nth)
    with assms(1) False le have p: "?p < ?k" by (auto simp: state_ok_def list_all_iff)
    let ?n = "\<lparr>name = nm, parent = Some ?p, children = [], is_dir = endswith_slash nm,
              full_path = path_join (full_path (heap st ! ?p)) nm\<rparr>"
    let ?h = "add_child (heap st @ [?n]) ?p ?k"
    from pl assms(3) False le have st': "heap st' = ?h" by auto
    have len: "length ?h = Suc ?k" by (simp add: add_child_def)
    show ?thesis unfolding st' len
    proof (intro allI impI)
      fix j assume "j < Suc ?k" and c: "children (?h ! j) \<noteq> []"
      then consider "j = ?k" | "j = ?p" | "j < ?k" "j \<noteq> ?p" by fastforce
      then show "is_dir (?h ! j)"
      proof cases
        case 1
        with p have "children (?h ! j) = []" by (simp add: add_child_def)
        with c show ?thesis by simp
      next
        case 2
        with p show ?thesis by (simp add: add_child_def)
      next
        case 3
        then have e: "?h ! j = heap st ! j" by (simp add: add_child_def nth_append)
        from c assms(2) 3(1) show ?thesis unfolding e by blast
      qed
    qed
  qed
qed

lemma promoted_process_lines:
  "state_ok st \<Longrightarrow>
   \<forall>j<length (heap st). children (heap st ! j) \<noteq> [] \<longrightarrow> is_dir (heap st ! j) \<Longrightarrow>
   process_lines st ls = Inr st' \<Longrightarrow>
   \<forall>j<length (heap st'). children (heap st' ! j) \<noteq> [] \<longrightarrow> is_dir (heap st' ! j)"
proof (induction ls arbitrary: st)
  case Nil
  then show ?case by simp
next
  case (Cons l ls)
  from Cons.prems(3) obtain st1 where s1: "process_line st l = Inr st1"
    and s2: "process_lines st1 ls = Inr st'" by (auto split: sum.splits)
  from state_ok_process_line[OF Cons.prems(1) s1] promoted_process_line[OF Cons.prems(1,2) s1]
    Cons.IH[OF _ _ s2] show ?case by blast
qed

lemma hoc_parent_promoted:
  assumes "parse_tree_structure s = Inr (h, rs)" and "j < length h" and "children (h ! j) \<noteq> []"
  shows "is_dir (h ! j)"
proof -
  from assms(1) obtain st where "process_lines init_state (map expand_tabs (split_nl (strip s))) = Inr st"
    and "h = heap st"
    by (auto simp: parse_tree_structure_def Let_def split: if_splits sum.splits)
  moreover have "\<forall>j<length (heap init_state).
      children (heap init_state ! j) \<noteq> [] \<longrightarrow> is_dir (heap init_state ! j)"
    by (simp add: init_state_def)
  ultimately show ?thesis using promoted_process_lines[OF state_ok_init] assms(2,3) by blast
qed

subsection \<open>Permissions\<close>


lemma grows_refl [simp]: "grows f f"
  by (simp add: grows_def)



lemma dir_not_file: "is_dir_at f k \<Longrightarrow> \<not> is_file_at f k"
  by (auto simp: is_dir_at_def is_file_at_def split: option.splits fs_entry.splits)








lemma os_open_w_fail: "os_open_w env f q = (g, False) \<Longrightarrow> g = f"
  by (auto simp: os_open_w_def Let_def split: if_splits option.splits fs_entry.splits)





text \<open>
  \<open>os.chmod\<close> changes the bits of the entry the path resolves to, or fails; it fails on an
  entry that exists exactly when the system refuses the change.
\<close>

lemma os_chmod_props:
  "os_chmod env f p m = (g, ok) \<Longrightarrow>
     (\<not> ok \<and> g = f) \<or>
     (ok \<and> (\<exists>l e. resolve env f p = Some l \<and> f l = Some e \<and> \<not> chmod_refused env l m \<and>
                  g = f(l \<mapsto> with_mode m e)))"
  by (auto simp: os_chmod_def split: option.splits if_splits)





































lemma dc_file_mode_bits [simp]: "dc_file_mode p mod 4096 = dc_file_mode p"
  by (simp add: dc_file_mode_def)











lemma new_base_main:
  "main example_env example_fs (asc ''/tmp/y'') None example_tree (Some 493) (Some 420) =
     (Created,
      example_fs([asc ''tmp'', asc ''y''] \<mapsto> DirEntry 448,
          [asc ''tmp'', asc ''y'', asc ''root''] \<mapsto> DirEntry 493,
          [asc ''tmp'', asc ''y'', asc ''root'', asc ''a''] \<mapsto> DirEntry 493,
          [asc ''tmp'', asc ''y'', asc ''root'', asc ''a'', asc ''b.txt''] \<mapsto> FileEntry 420 [],
          [asc ''tmp'', asc ''y'', asc ''root'', asc ''c.txt''] \<mapsto> FileEntry 420 []))"
proof -
  have s: "strip example_tree \<noteq> []" by (simp add: example_tree_def eval_defs)
  have e: "\<not> os_path_exists example_env example_fs (asc ''/tmp/y'')"
    by (simp add: example_fs_def example_env_def fs_defs eval_defs)
  have mk: "os_makedirs example_env example_fs (asc ''/tmp/y'')
              = (example_fs([asc ''tmp'', asc ''y''] \<mapsto> DirEntry 448), True)"
    by (simp add: example_fs_def example_env_def fs_defs eval_defs)
  have r: "run_ops example_env (example_fs([asc ''tmp'', asc ''y''] \<mapsto> DirEntry 448))
             (create_structure_from_tree (asc ''/tmp/y'') example_store [0] (Some 493) (Some 420))
     = (example_fs([asc ''tmp'', asc ''y''] \<mapsto> DirEntry 448,
          [asc ''tmp'', asc ''y'', asc ''root''] \<mapsto> DirEntry 493,
          [asc ''tmp'', asc ''y'', asc ''root'', asc ''a''] \<mapsto> DirEntry 493,
          [asc ''tmp'', asc ''y'', asc ''root'', asc ''a'', asc ''b.txt''] \<mapsto> FileEntry 420 [],
          [asc ''tmp'', asc ''y'', asc ''root'', asc ''c.txt''] \<mapsto> FileEntry 420 []), True)"
    by (simp add: example_fs_def example_env_def example_store_def create_structure_from_tree_def
        create_node_structure.simps fs_defs Let_def eval_defs)
  show ?thesis using e mk r by (simp add: main_def example_tree_parse s)
qed





end
